theory Spec2Isabelle
  imports Complex_Main "HOL-Library.Product_Lexorder"
begin

section \<open>Chunking (ingest, main.py lines 62-64)\<close>

text \<open>
  Python's \<open>range(i, n, st)\<close> for a positive step, as the list it enumerates.
\<close>

function py_range :: "nat \<Rightarrow> nat \<Rightarrow> nat \<Rightarrow> nat list" where
  "py_range i n st = (if i < n \<and> 0 < st then i # py_range (i + st) n st else [])"
  by pat_completeness auto
termination
  by (relation "measure (\<lambda>(i, n, st). n - i)") auto

declare py_range.simps [simp del]

text \<open>The slice \<open>text[i:j]\<close> for \<open>0 \<le> i \<le> j\<close>; Python clamps both ends to the length.\<close>

definition py_slice :: "'a list \<Rightarrow> nat \<Rightarrow> nat \<Rightarrow> 'a list" where
  "py_slice str i j = take (j - i) (drop i str)"

definition step :: nat where
  "step = 500"

text \<open>
  \<^verbatim>\<open>chunks = [text[i:i+step] for i in range(0, len(text), step)] or [""]\<close>
\<close>

definition chunks_of :: "'a list \<Rightarrow> 'a list list" where
  "chunks_of str =
     (let cs = map (\<lambda>i. py_slice str i (i + step)) (py_range 0 (length str) step)
      in if cs = [] then [[]] else cs)"

section \<open>Values the code computes with\<close>

text \<open>The exceptions that the modelled code can raise; \<open>HTTPException\<close> carries its status.\<close>

datatype error = AttributeError | TypeError | ValueError | ZeroDivisionError
  | HTTPException nat

subsection \<open>Strings\<close>

text \<open>
  A Python string is a sequence of Unicode code points. String literals of the source are
  ASCII; \<open>ustr\<close> gives the code points of such a literal.
\<close>

type_synonym pystr = "nat list"

definition ustr :: "string \<Rightarrow> pystr" where
  "ustr s = map of_char s"

text \<open>
  The string methods \<open>lower\<close>, \<open>split\<close>, \<open>isalpha\<close> and \<open>isalnum\<close> consult Python's
  Unicode character database, which is not part of the repository. The functions below
  take it as the parameter \<open>u\<close>: which code points \<open>split()\<close> treats as whitespace,
  which are alphabetic, which are alphanumeric, and the lower-casing of a string (which
  is not character by character in general).
\<close>

record chartab =
  whitespace :: "nat \<Rightarrow> bool"
  alphabetic :: "nat \<Rightarrow> bool"
  alphanumeric :: "nat \<Rightarrow> bool"
  lowercase :: "pystr \<Rightarrow> pystr"

text \<open>\<open>s.lower()\<close>; the empty string has no character to map.\<close>

definition py_lower :: "chartab \<Rightarrow> pystr \<Rightarrow> pystr" where
  "py_lower u s = (if s = [] then [] else lowercase u s)"

text \<open>
  \<open>s.split()\<close>: the maximal runs of non-whitespace characters, in order; \<open>cur\<close> is
  the run being read.
\<close>

fun split_ws :: "chartab \<Rightarrow> pystr \<Rightarrow> pystr \<Rightarrow> pystr list" where
  "split_ws u cur [] = (if cur = [] then [] else [cur])"
| "split_ws u cur (c # cs) =
     (if whitespace u c then (if cur = [] then split_ws u [] cs else cur # split_ws u [] cs)
      else split_ws u (cur @ [c]) cs)"

definition py_split :: "chartab \<Rightarrow> pystr \<Rightarrow> pystr list" where
  "py_split u s = split_ws u [] s"

text \<open>\<open>t.isalpha()\<close> and \<open>t.isalnum()\<close>: at least one character, and every character in the class.\<close>

definition py_isalpha :: "chartab \<Rightarrow> pystr \<Rightarrow> bool" where
  "py_isalpha u t = (t \<noteq> [] \<and> (\<forall>c \<in> set t. alphabetic u c))"

definition py_isalnum :: "chartab \<Rightarrow> pystr \<Rightarrow> bool" where
  "py_isalnum u t = (t \<noteq> [] \<and> (\<forall>c \<in> set t. alphanumeric u c))"

subsection \<open>Floats\<close>

text \<open>
  A Python float is an IEEE-754 binary64 number: a finite value, an infinity or a NaN. The
  two zeros are one value here: the code never tells them apart (they are equal, both are
  false, and a division by either raises).
\<close>

datatype pyfloat = Fin real | PInf | NInf | NaN

text \<open>Rounding a real to the nearest integer, halves to the even neighbour.\<close>

definition rhe :: "real \<Rightarrow> int" where
  "rhe y = (let f = \<lfloor>y\<rfloor>; d = y - of_int f
            in if d < 1/2 then f else if 1/2 < d then f + 1
               else if even f then f else f + 1)"

text \<open>
  Rounding to 53 significant bits, ties to even, first for a positive \<open>x\<close>; \<open>ulp_exp x\<close> is
  the exponent of the last of the 53 bits.
\<close>

definition ulp_exp :: "real \<Rightarrow> int" where
  "ulp_exp x = \<lfloor>log 2 x\<rfloor> - 52"

definition rnd_pos :: "real \<Rightarrow> real" where
  "rnd_pos x = of_int (rhe (x / 2 powr of_int (ulp_exp x))) * 2 powr of_int (ulp_exp x)"

definition round_sig :: "real \<Rightarrow> real" where
  "round_sig x = (if x = 0 then 0 else if x < 0 then - rnd_pos (- x) else rnd_pos x)"

text \<open>
  The binary64 result of an exact value \<open>x\<close>. Below \<open>2\<^sup>-\<^sup>1\<^sup>0\<^sup>2\<^sup>2\<close> the results are the
  multiples of \<open>2\<^sup>-\<^sup>1\<^sup>0\<^sup>7\<^sup>4\<close> (so a small enough value underflows to zero); otherwise \<open>x\<close>
  is rounded to 53 significant bits, and a rounded magnitude of \<open>2\<^sup>1\<^sup>0\<^sup>2\<^sup>4\<close> or more is an
  infinity.
\<close>

definition round64 :: "real \<Rightarrow> pyfloat" where
  "round64 x =
     (if \<bar>x\<bar> < 1 / 2 ^ 1022 then Fin (of_int (rhe (x * 2 ^ 1074)) / 2 ^ 1074)
      else if 2 ^ 1024 \<le> \<bar>round_sig x\<bar> then (if 0 < x then PInf else NInf)
      else Fin (round_sig x))"

text \<open>\<open>x + y\<close>, \<open>x * y\<close> on floats: neither raises.\<close>

fun fadd :: "pyfloat \<Rightarrow> pyfloat \<Rightarrow> pyfloat" where
  "fadd (Fin a) (Fin b) = round64 (a + b)"
| "fadd NaN y = NaN"
| "fadd x NaN = NaN"
| "fadd PInf NInf = NaN"
| "fadd NInf PInf = NaN"
| "fadd PInf y = PInf"
| "fadd x PInf = PInf"
| "fadd NInf y = NInf"
| "fadd x NInf = NInf"

fun fmul :: "pyfloat \<Rightarrow> pyfloat \<Rightarrow> pyfloat" where
  "fmul (Fin a) (Fin b) = round64 (a * b)"
| "fmul NaN y = NaN"
| "fmul x NaN = NaN"
| "fmul (Fin a) PInf = (if a = 0 then NaN else if 0 < a then PInf else NInf)"
| "fmul (Fin a) NInf = (if a = 0 then NaN else if 0 < a then NInf else PInf)"
| "fmul PInf (Fin b) = (if b = 0 then NaN else if 0 < b then PInf else NInf)"
| "fmul NInf (Fin b) = (if b = 0 then NaN else if 0 < b then NInf else PInf)"
| "fmul PInf PInf = PInf"
| "fmul PInf NInf = NInf"
| "fmul NInf PInf = NInf"
| "fmul NInf NInf = PInf"

text \<open>\<open>x / y\<close> on floats raises when \<open>y\<close> is zero, whatever \<open>x\<close> is.\<close>

fun fdiv :: "pyfloat \<Rightarrow> pyfloat \<Rightarrow> error + pyfloat" where
  "fdiv x (Fin b) =
     (if b = 0 then Inl ZeroDivisionError
      else case x of
             Fin a \<Rightarrow> Inr (round64 (a / b))
           | PInf \<Rightarrow> Inr (if 0 < b then PInf else NInf)
           | NInf \<Rightarrow> Inr (if 0 < b then NInf else PInf)
           | NaN \<Rightarrow> Inr NaN)"
| "fdiv NaN y = Inr NaN"
| "fdiv x NaN = Inr NaN"
| "fdiv (Fin a) y = Inr (Fin 0)"
| "fdiv x y = Inr NaN"

text \<open>\<open>math.sqrt(x)\<close> raises \<open>ValueError\<close> on a negative argument.\<close>

fun math_sqrt :: "pyfloat \<Rightarrow> error + pyfloat" where
  "math_sqrt (Fin a) = (if a < 0 then Inl ValueError else Inr (round64 (sqrt a)))"
| "math_sqrt PInf = Inr PInf"
| "math_sqrt NInf = Inl ValueError"
| "math_sqrt NaN = Inr NaN"

text \<open>\<open>x > 0\<close>, and \<open>x <= y\<close>; every comparison with a NaN is false.\<close>

fun positive :: "pyfloat \<Rightarrow> bool" where
  "positive (Fin a) = (0 < a)"
| "positive PInf = True"
| "positive x = False"

fun fle :: "pyfloat \<Rightarrow> pyfloat \<Rightarrow> bool" where
  "fle NaN y = False"
| "fle x NaN = False"
| "fle (Fin a) (Fin b) = (a \<le> b)"
| "fle NInf y = True"
| "fle x PInf = True"
| "fle x y = False"

text \<open>
  \<open>sum(xs)\<close> starts from the integer 0 and adds the floats from left to right.
  (CPython from 3.12 on also carries a compensation term for the rounding errors of the
  partial sums, which changes nothing when the partial sums are exact.)
\<close>

definition py_sum :: "pyfloat list \<Rightarrow> pyfloat" where
  "py_sum xs = foldl fadd (Fin 0) xs"

subsection \<open>Dictionaries\<close>

text \<open>
  A \<open>dict\<close> keeps its keys in insertion order, and assigning to a present key keeps the
  key's place: an association list with distinct keys.
\<close>

type_synonym 'v pydict = "(pystr \<times> 'v) list"

definition dict_get :: "'v pydict \<Rightarrow> pystr \<Rightarrow> 'v \<Rightarrow> 'v" where
  "dict_get d k dflt = (case map_of d k of None \<Rightarrow> dflt | Some v \<Rightarrow> v)"

fun dict_set :: "'v pydict \<Rightarrow> pystr \<Rightarrow> 'v \<Rightarrow> 'v pydict" where
  "dict_set [] k v = [(k, v)]"
| "dict_set (p # ps) k v = (if fst p = k then (k, v) # ps else p # dict_set ps k v)"

section \<open>The two vectorizers (ingest lines 66-70, semantic_search lines 130-134)\<close>

text \<open>
  In \<open>ingest\<close>, for each chunk \<open>ch\<close>:
  \<^verbatim>\<open>terms = [t for t in ch.lower().split() if t.isalpha() or t.isalnum()]
  emb = {}
  for t in terms:
      emb[t] = emb.get(t, 0.0) + 1.0\<close>
\<close>

definition chunk_terms :: "chartab \<Rightarrow> pystr \<Rightarrow> pystr list" where
  "chunk_terms u ch =
     filter (\<lambda>t. py_isalpha u t \<or> py_isalnum u t) (py_split u (py_lower u ch))"

definition chunk_embedding :: "chartab \<Rightarrow> pystr \<Rightarrow> pyfloat pydict" where
  "chunk_embedding u ch =
     foldl (\<lambda>emb t. dict_set emb t (fadd (dict_get emb t (Fin 0)) (Fin 1))) []
       (chunk_terms u ch)"

text \<open>
  In \<open>semantic_search\<close>, for the query string:
  \<^verbatim>\<open>tokens = [t for t in query.lower().split() if t.isalpha() or t.isalnum()]
  q_vec = {}
  for t in tokens:
      q_vec[t] = q_vec.get(t, 0.0) + 1.0\<close>
\<close>

definition query_tokens :: "chartab \<Rightarrow> pystr \<Rightarrow> pystr list" where
  "query_tokens u query =
     filter (\<lambda>t. py_isalpha u t \<or> py_isalnum u t) (py_split u (py_lower u query))"

definition query_vector :: "chartab \<Rightarrow> pystr \<Rightarrow> pyfloat pydict" where
  "query_vector u query =
     foldl (\<lambda>q_vec t. dict_set q_vec t (fadd (dict_get q_vec t (Fin 0)) (Fin 1))) []
       (query_tokens u query)"

section \<open>Scoring (semantic_search, main.py lines 122-128)\<close>

text \<open>
  What a stored chunk holds under \<open>"embedding"\<close> is whatever the store returns: a value
  of the document format, not necessarily a dictionary of floats. Numbers are floats.
\<close>

datatype pyval = PNone | PNum pyfloat | PStr pystr | PList "pyval list"
  | PDict "(pystr \<times> pyval) list"

text \<open>Truth value of an object, as \<open>not d_vec\<close> and \<open>qn and dn\<close> test it.\<close>

definition float_truthy :: "pyfloat \<Rightarrow> bool" where
  "float_truthy x = (x \<noteq> Fin 0)"

fun truthy :: "pyval \<Rightarrow> bool" where
  "truthy PNone = False"
| "truthy (PNum x) = float_truthy x"
| "truthy (PStr s) = (s \<noteq> [])"
| "truthy (PList vs) = (vs \<noteq> [])"
| "truthy (PDict d) = (d \<noteq> [])"

text \<open>\<open>x * v\<close> for a float \<open>x\<close>: only a number can be multiplied by a float.\<close>

fun times_float :: "pyfloat \<Rightarrow> pyval \<Rightarrow> error + pyfloat" where
  "times_float x (PNum y) = Inr (fmul x y)"
| "times_float x v = Inl TypeError"

text \<open>\<open>v * v\<close>: defined on numbers only.\<close>

fun times_self :: "pyval \<Rightarrow> error + pyfloat" where
  "times_self (PNum y) = Inr (fmul y y)"
| "times_self v = Inl TypeError"

text \<open>
  The items of a generator, evaluated in order; the first item that raises ends the
  evaluation with its exception.
\<close>

fun collect :: "(error + 'a) list \<Rightarrow> error + 'a list" where
  "collect [] = Inr []"
| "collect (Inl e # rs) = Inl e"
| "collect (Inr x # rs) = (case collect rs of Inl e \<Rightarrow> Inl e | Inr xs \<Rightarrow> Inr (x # xs))"

text \<open>
  \<^verbatim>\<open>def score(q_vec, d_vec):
      if not q_vec or not d_vec:
          return 0.0
      dot = sum(q_vec.get(t, 0.0) * d_vec.get(t, 0.0) for t in q_vec.keys())
      qn = math.sqrt(sum(v*v for v in q_vec.values()))
      dn = math.sqrt(sum(v*v for v in d_vec.values()))
      return dot / (qn * dn) if qn and dn else 0.0\<close>
  \<open>q_vec\<close> is the query vector built by \<open>semantic_search\<close>; \<open>d_vec\<close> is read from the
  store. Only a dictionary has \<open>get\<close> and \<open>values\<close>.
\<close>

definition score :: "pyfloat pydict \<Rightarrow> pyval \<Rightarrow> error + pyfloat" where
  "score q_vec d_vec =
     (if q_vec = [] \<or> \<not> truthy d_vec then Inr (Fin 0)
      else case d_vec of
        PDict d \<Rightarrow>
          (case collect (map (\<lambda>t. times_float (dict_get q_vec t (Fin 0))
                                               (dict_get d t (PNum (Fin 0))))
                             (map fst q_vec)) of
             Inl e \<Rightarrow> Inl e
           | Inr prods \<Rightarrow>
               (let dot = py_sum prods
                in case math_sqrt (py_sum (map (\<lambda>v. fmul v v) (map snd q_vec))) of
                     Inl e \<Rightarrow> Inl e
                   | Inr qn \<Rightarrow>
                       (case collect (map times_self (map snd d)) of
                          Inl e \<Rightarrow> Inl e
                        | Inr sqs \<Rightarrow>
                            (case math_sqrt (py_sum sqs) of
                               Inl e \<Rightarrow> Inl e
                             | Inr dn \<Rightarrow>
                                 if float_truthy qn \<and> float_truthy dn
                                 then fdiv dot (fmul qn dn)
                                 else Inr (Fin 0)))))
      | _ \<Rightarrow> Inl AttributeError)"

section \<open>The store\<close>

text \<open>
  The persistence store holds two collections. A document's \<open>_id\<close> is either a native
  \<open>ObjectId\<close> or a plain string. \<open>ObjectId\<close> belongs to the bson library, which is not
  part of the repository. An identifier is twelve bytes, and is named here by its
  canonical text, the 24 lowercase hexadecimal digits that \<open>str\<close> gives.
\<close>

datatype objectid = ObjectId pystr

datatype idval = IdObj objectid | IdStr pystr

fun str_of_oid :: "objectid \<Rightarrow> pystr" where
  "str_of_oid (ObjectId h) = h"

text \<open>Hexadecimal digits (0-9, A-F, a-f) by code point, and their lower-casing.\<close>

definition is_hex :: "nat \<Rightarrow> bool" where
  "is_hex c = ((48 \<le> c \<and> c \<le> 57) \<or> (65 \<le> c \<and> c \<le> 70) \<or> (97 \<le> c \<and> c \<le> 102))"

definition hex_lower :: "pystr \<Rightarrow> pystr" where
  "hex_lower s = map (\<lambda>c. if 65 \<le> c \<and> c \<le> 70 then c + 32 else c) s"

text \<open>
  \<open>ObjectId(s)\<close> for a string \<open>s\<close>: a string whose length is not 24 is refused (the
  constructor raises; \<open>None\<close> here), and 24 hexadecimal digits give the identifier with
  those digits. What the constructor does with any other string of length 24 is left
  to the library (it hands the string to \<open>bytes.fromhex\<close>, whose treatment of whitespace
  depends on the version): that is the parameter \<open>b\<close>.
\<close>

record bson =
  other_text :: "pystr \<Rightarrow> objectid option"

definition oid_of_str :: "bson \<Rightarrow> pystr \<Rightarrow> objectid option" where
  "oid_of_str b s =
     (if length s \<noteq> 24 then None
      else if list_all is_hex s then Some (ObjectId (hex_lower s))
      else other_text b s)"

text \<open>
  The fields of \<open>schemas.Document\<close> (the metadata holds the size only), and a stored
  document: those fields under an \<open>_id\<close>.
\<close>

record document_fields =
  title :: pystr
  pages :: "nat option"
  table_count :: "nat option"
  size_of :: nat

record document = document_fields +
  id_of :: idval

text \<open>
  A stored chunk, read with \<open>ch.get(...)\<close>: a field may be absent (\<open>None\<close> here), and
  the embedding is whatever value the store holds.
\<close>

record chunk =
  doc_id :: "pystr option"
  text_of :: "pystr option"
  page :: "nat option"
  embedding :: "pyval option"
  metadata :: "pyval option"

record store =
  documents :: "document list"
  chunks :: "chunk list"

text \<open>\<open>delete_one(filter)\<close>: removes the first record that matches; the count is 0 or 1.\<close>

fun delete_one :: "('a \<Rightarrow> bool) \<Rightarrow> 'a list \<Rightarrow> 'a list \<times> nat" where
  "delete_one f [] = ([], 0)"
| "delete_one f (x # xs) =
     (if f x then (xs, 1) else (case delete_one f xs of (ys, n) \<Rightarrow> (x # ys, n)))"

text \<open>\<open>delete_many(filter)\<close>: removes every record that matches.\<close>

definition delete_many :: "('a \<Rightarrow> bool) \<Rightarrow> 'a list \<Rightarrow> 'a list" where
  "delete_many f xs = filter (\<lambda>x. \<not> f x) xs"

text \<open>
  Modelled from the spec: \<open>database.create_document\<close> is imported by \<open>main.py\<close> but is
  not among the sources. The spec gives the store operation insert-one, which "returns
  generated id", a "store-assigned unique identifier, generated on creation"; the chunk
  schema declares \<open>doc_id: str\<close>, and the documents listing shows the identifier in its
  plain string form. So the document is stored under the native identifier \<open>oid\<close> that
  the store generates, and the string form of \<open>oid\<close> is returned.
\<close>

definition create_document ::
  "store \<Rightarrow> objectid \<Rightarrow> document_fields \<Rightarrow> store \<times> pystr" where
  "create_document st oid doc =
     (st\<lparr>documents := documents st @
          [\<lparr>title = title doc, pages = pages doc, table_count = table_count doc,
            size_of = size_of doc, id_of = IdObj oid\<rparr>]\<rparr>,
      str_of_oid oid)"

section \<open>Ingestion (main.py lines 47-81)\<close>

text \<open>
  An upload after decoding: the file name, the byte length of the content and the
  decoded text.
\<close>

record upload =
  filename :: pystr
  content_size :: nat
  decoded :: pystr

text \<open>
  \<^verbatim>\<open>chunk_doc = {"doc_id": doc_id, "text": ch, "page": None, "embedding": emb,
               "metadata": {"title": title, "chunk": idx}}\<close>
\<close>

definition chunk_doc :: "chartab \<Rightarrow> pystr \<Rightarrow> pystr \<Rightarrow> nat \<Rightarrow> pystr \<Rightarrow> chunk" where
  "chunk_doc u did ttl idx ch =
     \<lparr>doc_id = Some did, text_of = Some ch, page = None,
      embedding = Some (PDict (map (\<lambda>(k, v). (k, PNum v)) (chunk_embedding u ch))),
      metadata = Some (PDict [(ustr ''title'', PStr ttl),
                              (ustr ''chunk'', PNum (Fin (real idx)))])\<rparr>"

text \<open>
  The body of the loop over the uploaded files, for one file; \<open>oid\<close> is the identifier
  the store generates for the new document. The identifier returned by
  \<open>create_document\<close> is returned here as well, for the statements below.
\<close>

definition ingest_file ::
  "chartab \<Rightarrow> store \<Rightarrow> objectid \<Rightarrow> upload \<Rightarrow> store \<times> pystr" where
  "ingest_file u st oid f =
     (let doc = \<lparr>title = filename f, pages = None, table_count = Some 0,
                 size_of = content_size f\<rparr>;
          (st1, did) = create_document st oid doc;
          cs = chunks_of (decoded f);
          new = map (\<lambda>(idx, ch). chunk_doc u did (filename f) idx ch) (enumerate 0 cs)
      in (st1\<lparr>chunks := chunks st1 @ new\<rparr>, did))"

text \<open>The endpoint: every file in turn, then the count of documents inserted.\<close>

fun ingest_files :: "chartab \<Rightarrow> store \<Rightarrow> (objectid \<times> upload) list \<Rightarrow> store" where
  "ingest_files u st [] = st"
| "ingest_files u st ((oid, f) # fs) = ingest_files u (fst (ingest_file u st oid f)) fs"

definition ingest ::
  "chartab \<Rightarrow> store option \<Rightarrow> (objectid \<times> upload) list
     \<Rightarrow> store option \<times> (error + nat)" where
  "ingest u db files =
     (case db of None \<Rightarrow> (None, Inl (HTTPException 500))
      | Some st \<Rightarrow> (Some (ingest_files u st files), Inr (length files)))"

section \<open>Listing and deleting documents (main.py lines 22-38, 84-108)\<close>

text \<open>\<open>MongoJSONEncoder.encode\<close> on the \<open>_id\<close> field: a native identifier becomes its string.\<close>

definition encode_id :: "idval \<Rightarrow> pystr" where
  "encode_id v = (case v of IdObj oid \<Rightarrow> str_of_oid oid | IdStr s \<Rightarrow> s)"

text \<open>
  \<^verbatim>\<open>try:
      _id = ObjectId(doc_id)
      res = db["document"].delete_one({"_id": _id})
  except Exception:
      res = db["document"].delete_one({"_id": doc_id})
  db["chunk"].delete_many({"doc_id": doc_id})
  if res.deleted_count == 0:
      raise HTTPException(status_code=404, detail="Not found")
  return {"deleted": True}\<close>
  The store operations themselves do not fail in this model, so the handler is entered
  exactly when the conversion raises.
\<close>

definition delete_document ::
  "bson \<Rightarrow> store option \<Rightarrow> pystr \<Rightarrow> store option \<times> (error + bool)" where
  "delete_document b db did =
     (case db of None \<Rightarrow> (None, Inl (HTTPException 500))
      | Some st \<Rightarrow>
         (let (docs, deleted_count) =
                (case oid_of_str b did of
                   Some oid \<Rightarrow> delete_one (\<lambda>d. id_of d = IdObj oid) (documents st)
                 | None \<Rightarrow> delete_one (\<lambda>d. id_of d = IdStr did) (documents st));
              chs = delete_many (\<lambda>ch. doc_id ch = Some did) (chunks st);
              st' = st\<lparr>documents := docs, chunks := chs\<rparr>
          in if deleted_count = 0 then (Some st', Inl (HTTPException 404))
             else (Some st', Inr True)))"

section \<open>Search (main.py lines 115-151)\<close>

record match =
  m_doc_id :: "pystr option"
  m_text :: pystr
  m_score :: pyfloat
  m_metadata :: pyval

text \<open>
  \<^verbatim>\<open>for ch in db["chunk"].find({}).limit(2000):
      s = score(q_vec, ch.get("embedding", {}))
      if s > 0:
          matches.append({"doc_id": ch.get("doc_id"), "text": ch.get("text", "")[:500],
                          "score": float(s), "metadata": ch.get("metadata", {})})\<close>
\<close>

definition embedding_or_empty :: "chunk \<Rightarrow> pyval" where
  "embedding_or_empty ch = (case embedding ch of None \<Rightarrow> PDict [] | Some e \<Rightarrow> e)"

definition match_of :: "chunk \<Rightarrow> pyfloat \<Rightarrow> match" where
  "match_of ch s =
     \<lparr>m_doc_id = doc_id ch,
      m_text = take 500 (case text_of ch of None \<Rightarrow> [] | Some t \<Rightarrow> t),
      m_score = s,
      m_metadata = (case metadata ch of None \<Rightarrow> PDict [] | Some m \<Rightarrow> m)\<rparr>"

fun scan :: "pyfloat pydict \<Rightarrow> chunk list \<Rightarrow> error + match list" where
  "scan q_vec [] = Inr []"
| "scan q_vec (ch # chs) =
     (case score q_vec (embedding_or_empty ch) of
        Inl e \<Rightarrow> Inl e
      | Inr s \<Rightarrow>
          (case scan q_vec chs of
             Inl e \<Rightarrow> Inl e
           | Inr ms \<Rightarrow> Inr (if positive s then match_of ch s # ms else ms)))"

text \<open>
  \<open>matches[:top_k]\<close>: a non-negative bound keeps that many entries, a negative bound
  drops that many from the end.
\<close>

definition py_prefix :: "'a list \<Rightarrow> int \<Rightarrow> 'a list" where
  "py_prefix xs k = (if 0 \<le> k then take (nat k) xs else take (length xs - nat (- k)) xs)"

text \<open>\<open>" ".join(ts)\<close>; the space is code point 32.\<close>

fun join_space :: "pystr list \<Rightarrow> pystr" where
  "join_space [] = []"
| "join_space [t] = t"
| "join_space (t # ts) = t @ [32] @ join_space ts"

text \<open>
  \<open>matches.sort(key=lambda x: x["score"], reverse=True)\<close> is a stable sort into
  descending order of the float keys: the stable sort on a rank that reverses their order.
  (A NaN has no place in the order of floats; no score that was appended is one, since
  \<open>s > 0\<close> is false for it.)
\<close>

fun desc_rank :: "pyfloat \<Rightarrow> nat \<times> real" where
  "desc_rank PInf = (0, 0)"
| "desc_rank (Fin a) = (1, - a)"
| "desc_rank NInf = (2, 0)"
| "desc_rank NaN = (3, 0)"

text \<open>
  The query parameter is declared with \<open>min_length=1\<close>, so an empty query is rejected
  (status 422) before the body runs; \<open>top_k\<close> is declared as a plain integer.
\<close>

definition semantic_search ::
  "chartab \<Rightarrow> store option \<Rightarrow> pystr \<Rightarrow> int \<Rightarrow> error + (match list \<times> pystr)" where
  "semantic_search u db query top_k =
     (if length query < 1 then Inl (HTTPException 422)
      else case db of None \<Rightarrow> Inl (HTTPException 500)
      | Some st \<Rightarrow>
         (let q_vec = query_vector u query
          in case scan q_vec (take 2000 (chunks st)) of
               Inl e \<Rightarrow> Inl e
             | Inr found \<Rightarrow>
                 (let sorted = sort_key (\<lambda>m. desc_rank (m_score m)) found;
                      matches = py_prefix sorted top_k;
                      answer_text = take 800 (join_space (map m_text matches))
                  in Inr (matches, answer_text))))"


section \<open>Auxiliary notions for the statements\<close>

text \<open>The number of windows of width \<open>step\<close> that cover a text of length \<open>L\<close>.\<close>

definition n_windows :: "nat \<Rightarrow> nat" where
  "n_windows L = (L + step - 1) div step"

text \<open>One round of either counting loop, and the loop over a list of terms.\<close>

definition count_term :: "pyfloat pydict \<Rightarrow> pystr \<Rightarrow> pyfloat pydict" where
  "count_term emb t = dict_set emb t (fadd (dict_get emb t (Fin 0)) (Fin 1))"

definition term_counts :: "pystr list \<Rightarrow> pyfloat pydict" where
  "term_counts ts = foldl count_term [] ts"

text \<open>
  A vector of term counts, as the counting loop builds it: distinct keys, and each weight
  a whole number from 1 to \<open>2\<^sup>5\<^sup>3\<close> (where a float count stops growing).
\<close>

definition count_vector :: "pyfloat pydict \<Rightarrow> bool" where
  "count_vector q =
     (distinct (map fst q)
      \<and> (\<forall>x \<in> snd ` set q. \<exists>n. 1 \<le> n \<and> n \<le> 2 ^ 53 \<and> x = Fin (real n)))"

text \<open>A vector whose weights are finite floats.\<close>

definition finite_weights :: "pyfloat pydict \<Rightarrow> bool" where
  "finite_weights v = (\<forall>x \<in> snd ` set v. \<exists>a. x = Fin a)"

text \<open>A dictionary of floats as a stored value.\<close>

definition float_vec :: "pyfloat pydict \<Rightarrow> pyval" where
  "float_vec d = PDict (map (\<lambda>(k, v). (k, PNum v)) d)"

text \<open>
  The sum of squares, the Euclidean norm and the dot product over the keys of \<open>q\<close>, as
  \<open>score\<close> computes them.
\<close>

definition sq_sum :: "pyfloat pydict \<Rightarrow> pyfloat" where
  "sq_sum v = py_sum (map (\<lambda>x. fmul x x) (map snd v))"

definition norm2 :: "pyfloat pydict \<Rightarrow> pyfloat" where
  "norm2 v = (case math_sqrt (sq_sum v) of Inl e \<Rightarrow> NaN | Inr n \<Rightarrow> n)"

definition dot_over :: "pyfloat pydict \<Rightarrow> pyfloat pydict \<Rightarrow> pyfloat" where
  "dot_over q d =
     py_sum (map (\<lambda>t. fmul (dict_get q t (Fin 0)) (dict_get d t (Fin 0))) (map fst q))"

text \<open>The least positive float, and the least positive square root of a float.\<close>

definition tiny :: real where
  "tiny = 1 / 2 ^ 1074"

definition root_tiny :: real where
  "root_tiny = 1 / 2 ^ 537"

text \<open>
  Classes of floats that the sums of squares and their roots stay in: a float that is
  not negative (a NaN counts, an infinity too) and, when finite and nonzero, at least
  \<open>bound\<close>; a number that is not negative; and a finite float between two bounds.
\<close>

definition not_below :: "real \<Rightarrow> pyfloat \<Rightarrow> bool" where
  "not_below bound x =
     (case x of Fin a \<Rightarrow> a = 0 \<or> bound \<le> a | PInf \<Rightarrow> True | NInf \<Rightarrow> False
      | NaN \<Rightarrow> True)"

definition nonneg_number :: "pyfloat \<Rightarrow> bool" where
  "nonneg_number x =
     (case x of Fin a \<Rightarrow> 0 \<le> a | PInf \<Rightarrow> True | NInf \<Rightarrow> False | NaN \<Rightarrow> False)"

definition fin_between :: "real \<Rightarrow> real \<Rightarrow> pyfloat \<Rightarrow> bool" where
  "fin_between lo hi x = (case x of Fin a \<Rightarrow> lo \<le> a \<and> a \<le> hi | _ \<Rightarrow> False)"

text \<open>
  The matches that the scan over the chunks \<open>chs\<close> appends, in retrieval order, when no
  score raises: one for each chunk whose score is positive.
\<close>

definition positive_matches :: "pyfloat pydict \<Rightarrow> chunk list \<Rightarrow> match list" where
  "positive_matches q chs =
     concat (map (\<lambda>ch. case score q (embedding_or_empty ch) of
                          Inl e \<Rightarrow> []
                        | Inr s \<Rightarrow> if positive s then [match_of ch s] else []) chs)"

text \<open>A chunk whose embedding is absent or a dictionary of floats, as ingestion writes it.\<close>

definition float_embedding :: "chunk \<Rightarrow> bool" where
  "float_embedding ch = (embedding ch = None \<or> (\<exists>d. embedding ch = Some (float_vec d)))"

subsection \<open>Example data\<close>

text \<open>
  An instance of the character database for the examples, which are ASCII: the database
  restricted to the code points below 128, where whitespace is 9-13 and 28-32, letters
  are A-Z and a-z, digits 0-9, and lower-casing moves A-Z to a-z. (Code points from 128
  on are in no class here and are left alone; the examples use none.)
\<close>

definition ascii_tab :: chartab where
  "ascii_tab =
     \<lparr>whitespace = (\<lambda>c. (9 \<le> c \<and> c \<le> 13) \<or> (28 \<le> c \<and> c \<le> 32)),
      alphabetic = (\<lambda>c. (65 \<le> c \<and> c \<le> 90) \<or> (97 \<le> c \<and> c \<le> 122)),
      alphanumeric = (\<lambda>c. (65 \<le> c \<and> c \<le> 90) \<or> (97 \<le> c \<and> c \<le> 122)
                          \<or> (48 \<le> c \<and> c \<le> 57)),
      lowercase = map (\<lambda>c. if 65 \<le> c \<and> c \<le> 90 then c + 32 else c)\<rparr>"

text \<open>
  A generated identifier: its text is 24 lowercase hexadecimal digits.
\<close>

definition valid_oid :: "objectid \<Rightarrow> bool" where
  "valid_oid oid =
     (case oid of ObjectId h \<Rightarrow>
        length h = 24 \<and> list_all (\<lambda>c. (48 \<le> c \<and> c \<le> 57) \<or> (97 \<le> c \<and> c \<le> 102)) h)"

text \<open>For the examples: a library that refuses every other string of length 24.\<close>

definition canonical_bson :: bson where
  "canonical_bson = \<lparr>other_text = (\<lambda>s. None)\<rparr>"

text \<open>A weight whose square underflows to zero.\<close>

definition small_weight :: real where
  "small_weight = 1 / 2 ^ 600"

text \<open>
  A small store: three chunks of one document, with the embeddings of the texts "b", "a"
  and "a a".
\<close>

definition example_chunk :: "string \<Rightarrow> pyfloat pydict \<Rightarrow> chunk" where
  "example_chunk t emb =
     \<lparr>doc_id = Some (ustr ''d1''), text_of = Some (ustr t), page = None,
      embedding = Some (float_vec emb), metadata = None\<rparr>"

definition example_store :: store where
  "example_store =
     \<lparr>documents = [],
      chunks = [example_chunk ''b'' [(ustr ''b'', Fin 1)],
                example_chunk ''a'' [(ustr ''a'', Fin 1)],
                example_chunk ''a a'' [(ustr ''a'', Fin 2)]]\<rparr>"


section \<open>Properties of rounding\<close>

lemma rhe_of_int [simp]: "rhe (of_int n) = n"
  by (simp add: rhe_def)

lemma rhe_near: "\<bar>of_int (rhe y) - y\<bar> \<le> 1/2"
  unfolding rhe_def Let_def by (auto; linarith)

lemma rhe_mono_int: "of_int n \<le> y \<Longrightarrow> n \<le> rhe y"
  unfolding rhe_def Let_def by (auto simp: le_floor_iff; linarith)

lemma rhe_interval:
  assumes "of_int m - 1/2 < y" "y < of_int m + 1/2"
  shows "rhe y = m"
proof (cases "of_int m \<le> y")
  case True
  then have "\<lfloor>y\<rfloor> = m" using assms by (simp add: floor_eq_iff)
  then show ?thesis using assms by (simp add: rhe_def Let_def)
next
  case False
  then have f: "\<lfloor>y\<rfloor> = m - 1" using assms by (simp add: floor_eq_iff)
  have "1/2 < y - of_int (m - 1)" using assms by simp
  then show ?thesis unfolding rhe_def Let_def f by simp
qed

lemma ulp_exp_eqI:
  assumes "2 powr of_int (k + 52) \<le> x" "x < 2 powr of_int (k + 53)"
  shows "ulp_exp x = k"
proof -
  have "(0::real) < 2 powr of_int (k + 52)" by simp
  then have pos: "0 < x" using assms(1) by (rule less_le_trans)
  have "of_int (k + 52) \<le> log 2 x" using assms(1) pos by (simp add: le_log_iff)
  moreover have "log 2 x < of_int (k + 53)" using assms(2) pos by (simp add: log_less_iff)
  ultimately have "\<lfloor>log 2 x\<rfloor> = k + 52" by (simp add: floor_eq_iff)
  then show ?thesis using pos by (simp add: ulp_exp_def)
qed

lemma ulp_exp_bounds:
  assumes "0 < x"
  shows "2 powr of_int (ulp_exp x + 52) \<le> x" "x < 2 powr of_int (ulp_exp x + 53)"
proof -
  have "of_int \<lfloor>log 2 x\<rfloor> \<le> log 2 x" by simp
  then show "2 powr of_int (ulp_exp x + 52) \<le> x"
    using assms by (simp add: ulp_exp_def powr_le_iff)
  have "log 2 x < of_int \<lfloor>log 2 x\<rfloor> + 1" by linarith
  moreover have "real_of_int (ulp_exp x + 53) = of_int \<lfloor>log 2 x\<rfloor> + 1"
    by (simp add: ulp_exp_def)
  ultimately have "log 2 x < of_int (ulp_exp x + 53)" by (simp only:)
  then show "x < 2 powr of_int (ulp_exp x + 53)"
    using assms by (simp only: less_powr_iff)
qed


lemma rnd_0 [simp]: "round_sig 0 = 0"
  by (simp add: round_sig_def)

lemma rnd_minus: "round_sig (- x) = - round_sig x"
  by (simp add: round_sig_def)

lemma scaled_range:
  assumes "0 < x"
  shows "2 ^ 52 \<le> x / 2 powr of_int (ulp_exp x)" "x / 2 powr of_int (ulp_exp x) < 2 ^ 53"
proof -
  let ?e = "ulp_exp x"
  have p: "0 < (2::real) powr of_int ?e" by simp
  have "(2::real) powr of_int (?e + 52) = 2 powr of_int ?e * 2 powr 52"
    by (simp add: powr_add)
  then have "(2::real) powr of_int (?e + 52) = 2 powr of_int ?e * 2 ^ 52"
    by simp
  with ulp_exp_bounds(1) [OF assms] show "2 ^ 52 \<le> x / 2 powr of_int ?e"
    using p by (simp add: le_divide_eq mult.commute)
  have "(2::real) powr of_int (?e + 53) = 2 powr of_int ?e * 2 powr 53"
    by (simp add: powr_add)
  then have "(2::real) powr of_int (?e + 53) = 2 powr of_int ?e * 2 ^ 53"
    by simp
  with ulp_exp_bounds(2) [OF assms] show "x / 2 powr of_int ?e < 2 ^ 53"
    using p by (simp add: divide_less_eq mult.commute)
qed

lemma rnd_pos_gt_0: "0 < x \<Longrightarrow> 0 < rnd_pos x"
proof -
  assume x: "0 < x"
  have "of_int (2 ^ 52) \<le> x / 2 powr of_int (ulp_exp x)"
    using scaled_range(1) [OF x] by simp
  then have "2 ^ 52 \<le> rhe (x / 2 powr of_int (ulp_exp x))" by (rule rhe_mono_int)
  with less_le_trans [of 0 "2 ^ 52" "rhe (x / 2 powr of_int (ulp_exp x))"]
  have "0 < rhe (x / 2 powr of_int (ulp_exp x))" by simp
  then show ?thesis by (simp add: rnd_pos_def)
qed

lemma rnd_pos_iff [simp]: "0 < round_sig x \<longleftrightarrow> 0 < x"
  using rnd_pos_gt_0 [of x] rnd_pos_gt_0 [of "- x"]
  by (auto simp: round_sig_def not_less; linarith?)

lemma rnd_eq_0_iff [simp]: "round_sig x = 0 \<longleftrightarrow> x = 0"
  using rnd_pos_gt_0 [of x] rnd_pos_gt_0 [of "- x"]
  by (auto simp: round_sig_def)

lemma rnd_nonneg [simp]: "0 \<le> round_sig x \<longleftrightarrow> 0 \<le> x"
  using rnd_pos_gt_0 [of x] rnd_pos_gt_0 [of "- x"]
  by (auto simp: round_sig_def not_less; linarith?)

lemma rnd_pos_error: 
  assumes "0 < x" shows "\<bar>rnd_pos x - x\<bar> \<le> x / 2 ^ 53"
proof -
  let ?p = "2 powr of_int (ulp_exp x) :: real"
  let ?y = "x / ?p"
  have p: "0 < ?p" by simp
  have "rnd_pos x - x = (of_int (rhe ?y) - ?y) * ?p"
    by (simp add: rnd_pos_def algebra_simps)
  then have "\<bar>rnd_pos x - x\<bar> = \<bar>of_int (rhe ?y) - ?y\<bar> * ?p"
    by (simp add: abs_mult)
  also have "\<dots> \<le> 1/2 * ?p"
    using rhe_near [of ?y] p by (intro mult_right_mono) simp_all
  also have "\<dots> \<le> x / 2 ^ 53"
  proof -
    have "2 ^ 52 * ?p \<le> x" using scaled_range(1) [OF assms] p by (simp add: le_divide_eq)
    then show ?thesis by simp
  qed
  finally show ?thesis .
qed

lemma rnd_error: "\<bar>round_sig x - x\<bar> \<le> \<bar>x\<bar> / 2 ^ 53"
  using rnd_pos_error [of x] rnd_pos_error [of "- x"]
  by (cases "x = 0"; cases "x < 0") (simp_all add: round_sig_def)

lemma rnd_exact:
  assumes "0 < x" "x / 2 powr of_int (ulp_exp x) = of_int n"
  shows "round_sig x = x"
proof -
  have "rnd_pos x = of_int n * 2 powr of_int (ulp_exp x)"
    by (simp add: rnd_pos_def assms(2))
  also have "\<dots> = x" using assms(2) by (simp add: field_simps)
  finally show ?thesis using assms(1) by (simp add: round_sig_def)
qed

lemma rnd_of_nat:
  assumes "n < 2 ^ 53" shows "round_sig (of_nat n) = of_nat n"
proof (cases "n = 0")
  case True then show ?thesis by simp
next
  case False
  let ?x = "real n"
  have x: "0 < ?x" using False by simp
  have "?x < 2 ^ 53" using assms by (metis of_nat_less_iff of_nat_numeral of_nat_power)
  have "2 powr of_int (ulp_exp ?x + 52) \<le> ?x" by (rule ulp_exp_bounds(1) [OF x])
  also have "?x < 2 powr of_int 53" using \<open>?x < 2 ^ 53\<close> by (simp add: powr_realpow)
  finally have "(2::real) powr of_int (ulp_exp ?x + 52) < 2 powr of_int 53" .
  then have "real_of_int (ulp_exp ?x + 52) < of_int 53"
    by (rule powr_less_cancel) simp
  then have "ulp_exp ?x + 52 < 53" by (simp only: of_int_less_iff)
  then have le: "ulp_exp ?x \<le> 0" by simp
  define k where "k = nat (- ulp_exp ?x)"
  have e: "ulp_exp ?x = - int k" using le by (simp add: k_def)
  have "?x / 2 powr of_int (ulp_exp ?x) = ?x * 2 ^ k"
    by (simp add: e powr_minus powr_realpow field_simps)
  also have "\<dots> = of_int (int n * 2 ^ k)" by simp
  finally show ?thesis by (rule rnd_exact [OF x])
qed

lemma rnd_interval:
  assumes "2 powr of_int (k + 52) \<le> x" "x < 2 powr of_int (k + 53)"
    and "(of_int m - 1/2) * 2 powr of_int k < x" "x < (of_int m + 1/2) * 2 powr of_int k"
  shows "round_sig x = of_int m * 2 powr of_int k"
proof -
  have "(0::real) < 2 powr of_int (k + 52)" by simp
  then have pos: "0 < x" using assms(1) by (rule less_le_trans)
  have e: "ulp_exp x = k" using assms(1,2) by (rule ulp_exp_eqI)
  have p: "0 < (2::real) powr of_int k" by simp
  have "of_int m - 1/2 < x / 2 powr of_int k" "x / 2 powr of_int k < of_int m + 1/2"
    using assms(3,4) p by (simp_all add: field_simps)
  then have "rhe (x / 2 powr of_int k) = m" by (rule rhe_interval)
  then show ?thesis using pos by (simp add: round_sig_def rnd_pos_def e)
qed


lemma rnd_interval_frac:
  fixes m :: int and j :: nat
  assumes "2 ^ 52 \<le> x * 2 ^ j" "x * 2 ^ j < 2 ^ 53"
    and "of_int m - 1/2 < x * 2 ^ j" "x * 2 ^ j < of_int m + 1/2"
  shows "round_sig x = of_int m / 2 ^ j"
proof -
  have p: "(2::real) powr of_int (- int j) = 1 / 2 ^ j"
    by (simp add: powr_minus powr_realpow divide_inverse)
  have a: "(2::real) powr of_int (- int j + 52) = 2 ^ 52 / 2 ^ j"
    using powr_add [of "2::real" "of_int (- int j)" 52] p by simp
  have b: "(2::real) powr of_int (- int j + 53) = 2 ^ 53 / 2 ^ j"
    using powr_add [of "2::real" "of_int (- int j)" 53] p by simp
  have "round_sig x = of_int m * 2 powr of_int (- int j)"
  proof (rule rnd_interval)
    show "2 powr of_int (- int j + 52) \<le> x" unfolding a using assms(1) by (simp add: field_simps)
    show "x < 2 powr of_int (- int j + 53)" unfolding b using assms(2) by (simp add: field_simps)
    show "(of_int m - 1/2) * 2 powr of_int (- int j) < x"
      unfolding p using assms(3) by (simp add: field_simps)
    show "x < (of_int m + 1/2) * 2 powr of_int (- int j)"
      unfolding p using assms(4) by (simp add: field_simps)
  qed
  then show ?thesis unfolding p by simp
qed

lemma rnd_sqrt3: "round_sig (sqrt 3) = 7800463371553962 / 2 ^ 52"
proof -
  have lo: "(15600926743107923 / 2 ^ 53 :: real) < sqrt 3"
    by (rule real_less_rsqrt) (simp add: power2_eq_square)
  have hi: "sqrt 3 < (15600926743107925 / 2 ^ 53 :: real)"
    by (rule real_less_lsqrt) (simp_all add: power2_eq_square)
  have "round_sig (sqrt 3) = of_int 7800463371553962 / 2 ^ 52"
    by (rule rnd_interval_frac) (use lo hi in \<open>simp_all add: field_simps\<close>)
  then show ?thesis by simp
qed

lemma rnd_sq: "round_sig (7800463371553962 / 2 ^ 52 * (7800463371553962 / 2 ^ 52)) = 6755399441055743 / 2 ^ 51"
proof -
  have "round_sig (7800463371553962 / 2 ^ 52 * (7800463371553962 / 2 ^ 52)) = of_int 6755399441055743 / 2 ^ 51"
    by (rule rnd_interval_frac) simp_all
  then show ?thesis by simp
qed

lemma rnd_quot: "round_sig (3 / (6755399441055743 / 2 ^ 51)) = 4503599627370497 / 2 ^ 52"
proof -
  have "round_sig (3 / (6755399441055743 / 2 ^ 51)) = of_int 4503599627370497 / 2 ^ 52"
    by (rule rnd_interval_frac) simp_all
  then show ?thesis by simp
qed


lemma rhe_le_int: "y \<le> of_int n \<Longrightarrow> rhe y \<le> n"
  unfolding rhe_def Let_def by (auto simp: floor_le_iff; linarith)

lemma rnd_pos_ge_pow:
  assumes "0 < x" "2 powr of_int k \<le> x"
  shows "2 powr of_int k \<le> rnd_pos x"
proof -
  let ?e = "ulp_exp x"
  have "of_int k \<le> log 2 x" using assms by (simp add: le_log_iff)
  then have "k \<le> \<lfloor>log 2 x\<rfloor>" by (simp add: le_floor_iff)
  then have k: "k \<le> ?e + 52" by (simp add: ulp_exp_def)
  have "of_int (2 ^ 52) \<le> x / 2 powr of_int ?e"
    using scaled_range(1) [OF assms(1)] by simp
  then have "2 ^ 52 \<le> rhe (x / 2 powr of_int ?e)" by (rule rhe_mono_int)
  then have "(2::real) ^ 52 \<le> of_int (rhe (x / 2 powr of_int ?e))"
    by (metis of_int_le_iff of_int_numeral of_int_power)
  then have "2 ^ 52 * 2 powr of_int ?e \<le> rnd_pos x"
    unfolding rnd_pos_def by (intro mult_right_mono) simp_all
  moreover have "(2::real) powr of_int (?e + 52) = 2 ^ 52 * 2 powr of_int ?e"
    using powr_add [of "2::real" "of_int ?e" 52] by simp
  moreover have "(2::real) powr of_int k \<le> 2 powr of_int (?e + 52)"
    using k by simp
  ultimately show ?thesis by linarith
qed

lemma rnd_pos_le_pow:
  assumes "0 < x" "x \<le> 2 powr of_int k * (1 + 1 / 2 ^ 54)"
  shows "rnd_pos x \<le> 2 powr of_int k"
proof (cases "x < 2 powr of_int k")
  case True
  let ?e = "ulp_exp x"
  have "log 2 x < of_int k" using True assms(1) by (simp add: log_less_iff)
  then have "\<lfloor>log 2 x\<rfloor> < k" by (simp add: floor_less_iff)
  then have k: "?e + 53 \<le> k" by (simp add: ulp_exp_def)
  have "x / 2 powr of_int ?e \<le> of_int (2 ^ 53)"
    using scaled_range(2) [OF assms(1)] by simp
  then have "rhe (x / 2 powr of_int ?e) \<le> 2 ^ 53" by (rule rhe_le_int)
  then have "of_int (rhe (x / 2 powr of_int ?e)) \<le> (2::real) ^ 53"
    by (metis of_int_le_iff of_int_numeral of_int_power)
  then have "rnd_pos x \<le> 2 ^ 53 * 2 powr of_int ?e"
    unfolding rnd_pos_def by (intro mult_right_mono) simp_all
  moreover have "(2::real) powr of_int (?e + 53) = 2 ^ 53 * 2 powr of_int ?e"
    using powr_add [of "2::real" "of_int ?e" 53] by simp
  moreover have "(2::real) powr of_int (?e + 53) \<le> 2 powr of_int k"
    using k by simp
  ultimately show ?thesis by linarith
next
  case False
  then have lo: "2 powr of_int k \<le> x" by simp
  have p: "0 < (2::real) powr of_int k" by simp
  have "2 powr of_int k * (1 + 1 / 2 ^ 54) < 2 powr of_int k * (2::real)"
    using p by (intro mult_strict_left_mono) simp_all
  also have "\<dots> = 2 powr of_int (k + 1)" by (simp add: powr_add)
  finally have hi: "x < 2 powr of_int (k + 1)" using assms(2) by simp
  let ?j = "k - 52"
  have "?j + 52 = k" "?j + 53 = k + 1" by simp_all
  then have "2 powr of_int (?j + 52) \<le> x" "x < 2 powr of_int (?j + 53)"
    using lo hi by (simp_all only:)
  then have e: "ulp_exp x = ?j" by (rule ulp_exp_eqI)
  have pj: "0 < (2::real) powr of_int ?j" by simp
  have kj: "(2::real) powr of_int k = 2 ^ 52 * 2 powr of_int ?j"
    using powr_add [of "2::real" "of_int ?j" 52] by simp
  have y1: "2 ^ 52 \<le> x / 2 powr of_int ?j"
    using lo pj unfolding kj by (simp add: le_divide_eq)
  have "x \<le> (2 ^ 52 * (1 + 1 / 2 ^ 54)) * 2 powr of_int ?j"
    using assms(2) unfolding kj by (simp add: algebra_simps)
  then have y2: "x / 2 powr of_int ?j \<le> 2 ^ 52 * (1 + 1 / 2 ^ 54)"
    using pj by (simp add: divide_le_eq)
  have "rhe (x / 2 powr of_int ?j) = 2 ^ 52"
  proof (rule rhe_interval)
    define y where "y = x / 2 powr of_int ?j"
    have a: "(2::real) ^ 52 \<le> y" using y1 by (simp only: y_def)
    have b: "y \<le> 2 ^ 52 * (1 + 1 / 2 ^ 54)" using y2 by (simp only: y_def)
    have c: "(2::real) ^ 52 * (1 + 1 / 2 ^ 54) = 2 ^ 52 + 1 / 4" by simp
    show "of_int (2 ^ 52) - 1 / 2 < x / 2 powr of_int ?j"
      unfolding y_def [symmetric] using a by simp
    show "x / 2 powr of_int ?j < of_int (2 ^ 52) + 1 / 2"
      unfolding y_def [symmetric] using b c by simp
  qed
  then have "rnd_pos x = 2 ^ 52 * 2 powr of_int ?j" by (simp add: rnd_pos_def e)
  then show ?thesis using kj by simp
qed


lemma round_sig_ge_pow:
  assumes "2 powr of_int k \<le> x"
  shows "2 powr of_int k \<le> round_sig x"
proof -
  have "(0::real) < 2 powr of_int k" by simp
  then have pos: "0 < x" using assms by (rule less_le_trans)
  then show ?thesis using rnd_pos_ge_pow [OF pos assms] by (simp add: round_sig_def)
qed

lemma round_sig_le_pow:
  assumes "0 \<le> x" "x \<le> 2 powr of_int k * (1 + 1 / 2 ^ 54)"
  shows "round_sig x \<le> 2 powr of_int k"
proof (cases "x = 0")
  case True
  then show ?thesis by (simp add: round_sig_def)
next
  case False
  with assms(1) have pos: "0 < x" by simp
  then show ?thesis using rnd_pos_le_pow [OF pos assms(2)] by (simp add: round_sig_def)
qed

lemma pow_nat: "(2::real) powr of_int (int n) = 2 ^ n"
  by (simp add: powr_realpow)

lemma pow_neg_nat: "(2::real) powr of_int (- int n) = 1 / 2 ^ n"
  by (simp add: powr_minus powr_realpow divide_inverse)

lemma round_sig_ge_nat: "2 ^ n \<le> x \<Longrightarrow> 2 ^ n \<le> round_sig x"
  using round_sig_ge_pow [of "int n" x] by (simp only: pow_nat)

lemma round_sig_ge_inv: "1 / 2 ^ n \<le> x \<Longrightarrow> 1 / 2 ^ n \<le> round_sig x"
  using round_sig_ge_pow [of "- int n" x] by (simp only: pow_neg_nat)

lemma round_sig_le_slack:
  "0 \<le> x \<Longrightarrow> x \<le> 2 ^ n * (1 + 1 / 2 ^ 54) \<Longrightarrow> round_sig x \<le> 2 ^ n"
  using round_sig_le_pow [of x "int n"] by (simp only: pow_nat)

lemma round_sig_le_nat: "0 \<le> x \<Longrightarrow> x \<le> 2 ^ n \<Longrightarrow> round_sig x \<le> 2 ^ n"
proof (rule round_sig_le_slack)
  assume "x \<le> 2 ^ n"
  moreover have "(2::real) ^ n \<le> 2 ^ n * (1 + 1 / 2 ^ 54)" by simp
  ultimately show "x \<le> 2 ^ n * (1 + 1 / 2 ^ 54)" by (rule order_trans)
qed

lemma round_sig_nonneg: "0 \<le> x \<Longrightarrow> 0 \<le> round_sig x"
  by simp

lemma rhe_zero [simp]: "rhe 0 = 0"
  using rhe_of_int [of 0] by simp

lemma round64_zero [simp]: "round64 0 = Fin 0"
  by (simp add: round64_def)

lemma round64_normal:
  assumes "1 / 2 ^ 1022 \<le> x" "x \<le> 2 ^ 1023"
  shows "round64 x = Fin (round_sig x)"
proof -
  have "(0::real) < 1 / 2 ^ 1022" by simp
  then have pos: "0 < x" using assms(1) by (rule less_le_trans)
  then have "round_sig x \<le> 2 ^ 1023" using assms(2) by (intro round_sig_le_nat) simp_all
  moreover have "(2::real) ^ 1023 < 2 ^ 1024" by simp
  moreover have "0 \<le> round_sig x" using pos by simp
  ultimately have "\<bar>round_sig x\<bar> < 2 ^ 1024" by linarith
  moreover have "\<not> \<bar>x\<bar> < 1 / 2 ^ 1022" using assms(1) pos by linarith
  ultimately show ?thesis unfolding round64_def by (simp only: if_False not_le [symmetric])
qed

lemma round64_nonneg_cases:
  assumes "0 \<le> x"
  shows "round64 x = PInf \<or> (\<exists>r. round64 x = Fin r \<and> (r = 0 \<or> 1 / 2 ^ 1074 \<le> r))"
proof (cases "\<bar>x\<bar> < 1 / 2 ^ 1022")
  case True
  define n where "n = rhe (x * 2 ^ 1074)"
  have r: "round64 x = Fin (of_int n / 2 ^ 1074)" using True by (simp add: round64_def n_def)
  have "of_int 0 \<le> x * 2 ^ 1074" using assms by simp
  then have "0 \<le> n" unfolding n_def by (rule rhe_mono_int)
  then consider "n = 0" | "1 \<le> n" by linarith
  then show ?thesis
  proof cases
    case 1
    with r show ?thesis by simp
  next
    case 2
    then have "(1::real) \<le> of_int n" by simp
    then have "1 / 2 ^ 1074 \<le> (of_int n :: real) / 2 ^ 1074"
      by (intro divide_right_mono) simp_all
    with r show ?thesis by blast
  qed
next
  case False
  with assms have lo: "1 / 2 ^ 1022 \<le> x" by simp
  then have "1 / 2 ^ 1022 \<le> round_sig x" by (rule round_sig_ge_inv)
  moreover have "(1::real) / 2 ^ 1074 \<le> 1 / 2 ^ 1022" by simp
  ultimately have g: "1 / 2 ^ 1074 \<le> round_sig x" by (rule order_trans [rotated])
  have "(0::real) < 1 / 2 ^ 1022" by simp
  then have pos: "0 < x" using lo by (rule less_le_trans)
  show ?thesis
  proof (cases "2 ^ 1024 \<le> \<bar>round_sig x\<bar>")
    case True
    with False pos show ?thesis by (simp add: round64_def)
  next
    case b: False
    with False have "round64 x = Fin (round_sig x)" by (simp add: round64_def)
    with g show ?thesis by blast
  qed
qed

lemma round64_ge_inv:
  assumes "1 / 2 ^ n \<le> x" "n \<le> 1074"
  shows "round64 x = PInf \<or> (\<exists>r. round64 x = Fin r \<and> 1 / 2 ^ n \<le> r)"
proof -
  have "(0::real) < 1 / 2 ^ n" by simp
  then have pos: "0 < x" using assms(1) by (rule less_le_trans)
  show ?thesis
  proof (cases "\<bar>x\<bar> < 1 / 2 ^ 1022")
    case True
    define P where "P = (2::real) ^ 1074"
    define j where "j = 1074 - n"
    define m where "m = rhe (x * P)"
    have r: "round64 x = Fin (of_int m / P)"
      using True by (simp only: round64_def m_def P_def if_True)
    have "n + j = 1074" using assms(2) by (simp add: j_def)
    then have "(2::real) ^ (n + j) = P" by (simp only: P_def)
    then have split: "P = 2 ^ n * 2 ^ j" by (simp only: power_add)
    have Ppos: "0 < P" unfolding split by simp
    have "1 \<le> x * 2 ^ n" using assms(1) by (simp add: field_simps)
    then have "1 * 2 ^ j \<le> (x * 2 ^ n) * 2 ^ j" by (intro mult_right_mono) simp_all
    then have "of_int (2 ^ j) \<le> x * P" unfolding split by (simp add: mult.assoc)
    then have "2 ^ j \<le> m" unfolding m_def by (rule rhe_mono_int)
    then have "(2::real) ^ j \<le> of_int m"
      by (metis of_int_le_iff of_int_numeral of_int_power)
    then have "2 ^ j / P \<le> (of_int m :: real) / P"
      using Ppos by (intro divide_right_mono) simp_all
    moreover have "(2::real) ^ j / P = 1 / 2 ^ n" unfolding split by simp
    ultimately have "1 / 2 ^ n \<le> (of_int m :: real) / P" by simp
    with r show ?thesis by blast
  next
    case False
    have g: "1 / 2 ^ n \<le> round_sig x" using assms(1) by (rule round_sig_ge_inv)
    show ?thesis
    proof (cases "2 ^ 1024 \<le> \<bar>round_sig x\<bar>")
      case True
      with False pos show ?thesis by (simp add: round64_def)
    next
      case b: False
      with False have "round64 x = Fin (round_sig x)" by (simp add: round64_def)
      with g show ?thesis by blast
    qed
  qed
qed

lemma round64_of_nat:
  assumes "n < 2 ^ 53"
  shows "round64 (real n) = Fin (real n)"
proof (cases "n = 0")
  case True
  then show ?thesis by simp
next
  case False
  then have "1 \<le> real n" by simp
  moreover have "(1::real) / 2 ^ 1022 \<le> 1" by simp
  ultimately have lo: "1 / 2 ^ 1022 \<le> real n" by linarith
  have "real n < 2 ^ 53" using assms by (metis of_nat_less_iff of_nat_numeral of_nat_power)
  moreover have "(2::real) ^ 53 \<le> 2 ^ 1023" by simp
  ultimately have hi: "real n \<le> 2 ^ 1023" by linarith
  show ?thesis using round64_normal [OF lo hi] rnd_of_nat [OF assms] by simp
qed

section \<open>Properties of chunking\<close>

lemma py_range_unfold:
  "0 < st \<Longrightarrow> py_range i n st = map (\<lambda>k. i + k * st) [0..<(n - i + st - 1) div st]"
proof (induction i n st rule: py_range.induct)
  case (1 i n st)
  show ?case
  proof (cases "i < n")
    case False
    then have "(n - i + st - 1) div st = 0" using "1.prems" by simp
    with False show ?thesis by (simp add: py_range.simps)
  next
    case True
    define m where "m = (n - (i + st) + st - 1) div st"
    have cnt: "(n - i + st - 1) div st = Suc m"
    proof (cases "i + st \<le> n")
      case True
      then have "n - i + st - 1 = (n - (i + st) + st - 1) + st"
        using "1.prems" by linarith
      then have "(n - i + st - 1) div st = ((n - (i + st) + st - 1) + st) div st"
        by (rule arg_cong)
      also have "\<dots> = Suc m"
        unfolding m_def using "1.prems" by (simp only: div_add_self2)
      finally show ?thesis .
    next
      case False
      have m0: "m = 0" using False "1.prems" by (simp add: m_def)
      have "st \<le> n - i + st - 1" "n - i + st - 1 < 2 * st"
        using False \<open>i < n\<close> "1.prems" by linarith+
      then have "(n - i + st - 1) div st = 1"
        by (metis div_nat_eqI mult.commute mult_2_right nat_mult_1_right
            One_nat_def mult_Suc_right)
      with m0 show ?thesis by simp
    qed
    have "py_range i n st = i # py_range (i + st) n st"
      using True "1.prems" by (simp add: py_range.simps)
    also have "py_range (i + st) n st = map (\<lambda>k. i + st + k * st) [0..<m]"
      using "1.IH" True "1.prems" by (simp add: m_def)
    also have "i # map (\<lambda>k. i + st + k * st) [0..<m] = map (\<lambda>k. i + k * st) [0..<Suc m]"
      by (simp add: upt_conv_Cons map_Suc_upt [symmetric] del: upt_Suc) 
    finally show ?thesis by (simp only: cnt)
  qed
qed


lemma windows_eq:
  "map (\<lambda>i. py_slice str i (i + step)) (py_range 0 (length str) step) =
   map (\<lambda>k. take step (drop (k * step) str)) [0..<n_windows (length str)]"
proof -
  have "0 < step" by (simp add: step_def)
  then have "py_range 0 (length str) step =
             map (\<lambda>k. 0 + k * step) [0..<(length str - 0 + step - 1) div step]"
    by (rule py_range_unfold)
  then show ?thesis
    by (simp add: n_windows_def py_slice_def comp_def)
qed

lemma n_windows_zero_iff: "n_windows L = 0 \<longleftrightarrow> L = 0"
proof -
  show ?thesis
    unfolding n_windows_def step_def by (simp add: div_eq_0_iff)
qed

lemma n_windows_ceiling: "n_windows L = nat \<lceil>real L / 500\<rceil>"
proof -
  have "\<lceil>real L / 500\<rceil> = \<lceil>real_of_int (int L) / real_of_int 500\<rceil>" by simp
  also have "\<dots> = - ((- int L) div 500)"
    by (simp only: ceiling_divide_eq_div)
  also have "\<dots> = (int L + 499) div 500" by linarith
  finally have "\<lceil>real L / 500\<rceil> = int ((L + 499) div 500)"
    by (simp add: zdiv_int)
  then show ?thesis by (simp add: n_windows_def step_def)
qed

lemma n_windows_covers: "L \<le> n_windows L * step"
proof -
  have "(L + step - 1) mod step < step" by (simp add: step_def)
  moreover have "L + step - 1 = n_windows L * step + (L + step - 1) mod step"
    by (simp add: n_windows_def)
  ultimately show ?thesis by (simp add: step_def)
qed

lemma n_windows_full: "Suc i < n_windows L \<Longrightarrow> Suc i * step \<le> L"
proof -
  assume "Suc i < n_windows L"
  then have "Suc (Suc i) \<le> (L + step - 1) div step" by (simp add: n_windows_def)
  then have "Suc (Suc i) * step \<le> L + step - 1"
    by (simp add: less_eq_div_iff_mult_less_eq step_def)
  then show ?thesis by (simp add: step_def)
qed

lemma concat_windows:
  "concat (map (\<lambda>k. take st (drop (k * st) str)) [0..<m]) = take (m * st) str"
proof (induction m)
  case 0
  show ?case by simp
next
  case (Suc m)
  have "take (m * st + st) str = take (m * st) str @ take st (drop (m * st) str)"
    by (rule take_add)
  with Suc show ?case by (simp add: add.commute)
qed

lemma chunks_of_nonempty_text:
  "str \<noteq> [] \<Longrightarrow>
   chunks_of str = map (\<lambda>k. take step (drop (k * step) str)) [0..<n_windows (length str)]"
  by (simp add: chunks_of_def windows_eq Let_def n_windows_zero_iff)

lemma chunks_of_empty: "chunks_of [] = [[]]"
  by (simp add: chunks_of_def py_range.simps)


lemma length_chunks_of: "length (chunks_of str) = max 1 (n_windows (length str))"
proof (cases "str = []")
  case True
  then show ?thesis by (simp add: chunks_of_empty n_windows_def step_def)
next
  case False
  then have "n_windows (length str) \<noteq> 0" by (simp add: n_windows_zero_iff)
  then have "max 1 (n_windows (length str)) = n_windows (length str)" by simp
  with False show ?thesis by (simp add: chunks_of_nonempty_text)
qed

lemma concat_chunks_of: "concat (chunks_of str) = str"
proof (cases "str = []")
  case True
  then show ?thesis by (simp add: chunks_of_empty)
next
  case False
  then have "concat (chunks_of str) = take (n_windows (length str) * step) str"
    by (simp add: chunks_of_nonempty_text concat_windows)
  then show ?thesis by (simp add: n_windows_covers)
qed

lemma full_chunks_of:
  assumes "Suc i < length (chunks_of str)"
  shows "length (chunks_of str ! i) = step"
proof -
  from assms have ne: "str \<noteq> []"
    by (auto simp: chunks_of_empty)
  with assms have i: "Suc i < n_windows (length str)"
    by (simp add: chunks_of_nonempty_text)
  then have "Suc i * step \<le> length str" by (rule n_windows_full)
  then have "step \<le> length str - i * step" by simp
  with ne i show ?thesis by (simp add: chunks_of_nonempty_text min_def)
qed

text \<open>
  C2. For a text of length L, chunking with window 500 gives exactly
  max(1, ceil(L/500)) slices (one empty slice for the empty text), every slice but
  possibly the last has length exactly 500, and the slices concatenated in order are
  the text.
\<close>

theorem chunking_count_width_roundtrip:
  "length (chunks_of str) = max 1 (nat \<lceil>real (length str) / 500\<rceil>)
   \<and> chunks_of [] = [[]]
   \<and> (\<forall>i. Suc i < length (chunks_of str) \<longrightarrow> length (chunks_of str ! i) = 500)
   \<and> concat (chunks_of str) = str"
proof -
  have "\<forall>i. Suc i < length (chunks_of str) \<longrightarrow> length (chunks_of str ! i) = 500"
    using full_chunks_of [of _ str] by (simp add: step_def)
  then show ?thesis
    by (simp add: length_chunks_of n_windows_ceiling concat_chunks_of chunks_of_empty)
qed

theorem chunking_count_width_roundtrip_witness:
  "length (chunks_of (replicate 501 CHR ''a'')) = 2
   \<and> Suc 0 < length (chunks_of (replicate 501 CHR ''a''))
   \<and> length (chunks_of (replicate 501 CHR ''a'') ! 0) = 500
   \<and> concat (chunks_of (replicate 501 CHR ''a'')) = replicate 501 CHR ''a''"
proof -
  let ?s = "replicate 501 CHR ''a''"
  note t = chunking_count_width_roundtrip [of ?s]
  have c: "\<lceil>501 / 500 :: real\<rceil> = 2" by (simp add: ceiling_eq_iff)
  from t have "length (chunks_of ?s) = max 1 (nat \<lceil>real (length ?s) / 500\<rceil>)"
    by (rule conjunct1)
  with c have len: "length (chunks_of ?s) = 2" by simp
  then have lt: "Suc 0 < length (chunks_of ?s)" by simp
  from t have "\<forall>i. Suc i < length (chunks_of ?s) \<longrightarrow> length (chunks_of ?s ! i) = 500"
    by blast
  with lt have full: "length (chunks_of ?s ! 0) = 500" by blast
  from t have "concat (chunks_of ?s) = ?s" by blast
  with len lt full show ?thesis by blast
qed


section \<open>Properties of the tokenizer and the term counts\<close>

lemma chunk_embedding_counts: "chunk_embedding u ch = term_counts (chunk_terms u ch)"
proof -
  have "count_term = (\<lambda>emb t. dict_set emb t (fadd (dict_get emb t (Fin 0)) (Fin 1)))"
    by (simp add: fun_eq_iff count_term_def)
  then show ?thesis by (simp add: chunk_embedding_def term_counts_def)
qed

lemma query_vector_counts: "query_vector u query = term_counts (query_tokens u query)"
proof -
  have "count_term = (\<lambda>emb t. dict_set emb t (fadd (dict_get emb t (Fin 0)) (Fin 1)))"
    by (simp add: fun_eq_iff count_term_def)
  then show ?thesis by (simp add: query_vector_def term_counts_def)
qed

lemma map_of_dict_set: "map_of (dict_set d k v) = (map_of d)(k \<mapsto> v)"
  by (induction d) (auto simp: fun_eq_iff)

lemma dict_get_dict_set:
  "dict_get (dict_set d k v) t dflt = (if t = k then v else dict_get d t dflt)"
  by (simp add: dict_get_def map_of_dict_set)

lemma keys_dict_set:
  "map fst (dict_set d k v) = (if k \<in> fst ` set d then map fst d else map fst d @ [k])"
  by (induction d) auto

lemma distinct_dict_set:
  "distinct (map fst d) \<Longrightarrow> distinct (map fst (dict_set d k v))"
  by (simp add: keys_dict_set)

lemma values_dict_set: "snd ` set (dict_set d k v) \<subseteq> insert v (snd ` set d)"
  by (induction d) auto

lemma keys_count_terms:
  "fst ` set (foldl count_term emb ts) = fst ` set emb \<union> set ts"
proof (induction ts arbitrary: emb)
  case Nil
  show ?case by simp
next
  case (Cons t ts)
  have "fst ` set (count_term emb t) = insert t (fst ` set emb)"
    using keys_dict_set [of emb t "fadd (dict_get emb t (Fin 0)) (Fin 1)"]
    by (auto simp: count_term_def simp flip: set_map split: if_splits)
  with Cons.IH [of "count_term emb t"] show ?case by auto
qed

lemma distinct_count_terms:
  "distinct (map fst emb) \<Longrightarrow> distinct (map fst (foldl count_term emb ts))"
  by (induction ts arbitrary: emb) (simp_all add: count_term_def distinct_dict_set)

lemma fadd_count: "Suc c < 2 ^ 53 \<Longrightarrow> fadd (Fin (real c)) (Fin 1) = Fin (real (Suc c))"
  using round64_of_nat [of "Suc c"] by (simp add: add.commute)

lemma get_count_terms:
  assumes "dict_get emb t (Fin 0) = Fin (real c)" "c + count_list ts t < 2 ^ 53"
  shows "dict_get (foldl count_term emb ts) t (Fin 0) = Fin (real (c + count_list ts t))"
  using assms
proof (induction ts arbitrary: emb c)
  case Nil
  then show ?case by simp
next
  case (Cons w ts)
  show ?case
  proof (cases "w = t")
    case True
    have "Suc c < 2 ^ 53" using Cons.prems(2) True by simp
    then have "dict_get (count_term emb w) t (Fin 0) = Fin (real (Suc c))"
      using Cons.prems(1) True
      by (simp add: count_term_def dict_get_dict_set fadd_count del: fadd.simps)
    moreover have "Suc c + count_list ts t < 2 ^ 53" using Cons.prems(2) True by simp
    ultimately have "dict_get (foldl count_term (count_term emb w) ts) t (Fin 0)
                     = Fin (real (Suc c + count_list ts t))"
      by (rule Cons.IH)
    with True show ?thesis by simp
  next
    case False
    then have "dict_get (count_term emb w) t (Fin 0) = Fin (real c)"
      using Cons.prems(1) by (simp add: count_term_def dict_get_dict_set)
    moreover have "c + count_list ts t < 2 ^ 53" using Cons.prems(2) False by simp
    ultimately have "dict_get (foldl count_term (count_term emb w) ts) t (Fin 0)
                     = Fin (real (c + count_list ts t))"
      by (rule Cons.IH)
    with False show ?thesis by simp
  qed
qed

lemma term_counts_keys: "fst ` set (term_counts ts) = set ts"
  by (simp add: term_counts_def keys_count_terms)

lemma term_counts_distinct: "distinct (map fst (term_counts ts))"
  by (simp add: term_counts_def distinct_count_terms)

lemma term_counts_get:
  "count_list ts t < 2 ^ 53 \<Longrightarrow>
   dict_get (term_counts ts) t (Fin 0) = Fin (real (count_list ts t))"
  using get_count_terms [of "[]" t 0 ts] by (simp add: term_counts_def dict_get_def)

lemma split_ws_tokens:
  "t \<in> set (split_ws u cur s) \<Longrightarrow> \<forall>c \<in> set cur. \<not> whitespace u c \<Longrightarrow>
   t \<noteq> [] \<and> (\<forall>c \<in> set t. \<not> whitespace u c)"
proof (induction u cur s rule: split_ws.induct)
  case (1 u cur)
  then show ?case by (simp split: if_splits)
next
  case (2 u cur c cs)
  show ?case
  proof (cases "whitespace u c")
    case True
    note sp = True
    show ?thesis
    proof (cases "cur = []")
      case True
      with sp "2.prems" "2.IH"(1) show ?thesis by simp
    next
      case False
      with sp "2.prems" have "t = cur \<or> t \<in> set (split_ws u [] cs)" by simp
      then show ?thesis
      proof
        assume "t = cur"
        with False "2.prems"(2) show ?thesis by simp
      next
        assume "t \<in> set (split_ws u [] cs)"
        with sp False "2.IH"(2) show ?thesis by simp
      qed
    qed
  next
    case False
    with "2.prems" have "t \<in> set (split_ws u (cur @ [c]) cs)" by simp
    moreover have "\<forall>x \<in> set (cur @ [c]). \<not> whitespace u x" using False "2.prems"(2) by simp
    ultimately show ?thesis using False "2.IH"(3) by blast
  qed
qed

lemma py_split_tokens:
  "t \<in> set (py_split u s) \<Longrightarrow> t \<noteq> [] \<and> (\<forall>c \<in> set t. \<not> whitespace u c)"
  using split_ws_tokens [of t u "[]" s] by (simp add: py_split_def)

lemma concat_split_ws:
  "concat (split_ws u cur s) = cur @ filter (\<lambda>c. \<not> whitespace u c) s"
  by (induction u cur s rule: split_ws.induct) simp_all

lemma count_list_filter: "P t \<Longrightarrow> count_list (filter P xs) t = count_list xs t"
  by (induction xs) auto

lemma map_of_from_get:
  assumes "t \<in> fst ` set d" "dict_get d t dflt = v"
  shows "map_of d t = Some v"
proof -
  from assms(1) obtain w where "map_of d t = Some w"
    by (metis map_of_eq_None_iff not_Some_eq)
  with assms(2) show ?thesis by (simp add: dict_get_def)
qed

lemma term_counts_map_of:
  assumes "t \<in> set ts" "count_list ts t < 2 ^ 53"
  shows "map_of (term_counts ts) t = Some (Fin (real (count_list ts t)))"
proof (rule map_of_from_get [where dflt = "Fin 0"])
  show "t \<in> fst ` set (term_counts ts)" using assms(1) by (simp add: term_counts_keys)
  show "dict_get (term_counts ts) t (Fin 0) = Fin (real (count_list ts t))"
    using assms(2) by (rule term_counts_get)
qed

lemma round_sig_two53: "round_sig (2 ^ 53) = 2 ^ 53"
proof (rule antisym)
  show "round_sig (2 ^ 53) \<le> 2 ^ 53" by (rule round_sig_le_nat) simp_all
  show "2 ^ 53 \<le> round_sig (2 ^ 53)" by (rule round_sig_ge_nat) simp
qed

lemma round64_two53: "round64 (2 ^ 53) = Fin (2 ^ 53)"
proof -
  have "round64 (2 ^ 53) = Fin (round_sig (2 ^ 53))"
    by (rule round64_normal) simp_all
  then show ?thesis by (simp only: round_sig_two53)
qed

lemma round_sig_two53_plus1: "round_sig (2 ^ 53 + 1) = 2 ^ 53"
proof -
  define x :: real where "x = 2 ^ 53 + 1"
  have pos: "0 < x" by (simp add: x_def)
  have "2 powr of_int (1 + 52) \<le> x" "x < 2 powr of_int (1 + 53)"
    by (simp_all add: x_def)
  then have e: "ulp_exp x = 1" by (rule ulp_exp_eqI)
  have "rhe (x / 2) = 2 ^ 52"
    by (simp add: rhe_def Let_def x_def)
  then have "rnd_pos x = 2 ^ 53" by (simp add: rnd_pos_def e)
  then have "round_sig x = 2 ^ 53" using pos by (simp add: round_sig_def)
  then show ?thesis by (simp only: x_def)
qed

lemma round64_two53_plus1: "round64 (2 ^ 53 + 1) = Fin (2 ^ 53)"
proof -
  have "round64 (2 ^ 53 + 1) = Fin (round_sig (2 ^ 53 + 1))"
    by (rule round64_normal) simp_all
  then show ?thesis by (simp only: round_sig_two53_plus1)
qed

lemma count_step:
  assumes "n \<le> 2 ^ 53"
  shows "\<exists>m. 1 \<le> m \<and> m \<le> 2 ^ 53 \<and> fadd (Fin (real n)) (Fin 1) = Fin (real m)"
proof -
  consider "Suc n < 2 ^ 53" | "Suc n = 2 ^ 53" | "n = 2 ^ 53" using assms by linarith
  then show ?thesis
  proof cases
    case 1
    then have "fadd (Fin (real n)) (Fin 1) = Fin (real (Suc n))" by (rule fadd_count)
    moreover have "1 \<le> Suc n" "Suc n \<le> 2 ^ 53" using 1 by simp_all
    ultimately show ?thesis by blast
  next
    case 2
    then have "real (Suc n) = real (2 ^ 53)" by (simp only:)
    then have "real n + 1 = 2 ^ 53" by simp
    then have "round64 (real n + 1) = Fin (2 ^ 53)" by (simp only: round64_two53)
    moreover have "real (2 ^ 53) = (2::real) ^ 53" by simp
    ultimately have "fadd (Fin (real n)) (Fin 1) = Fin (real (2 ^ 53))"
      by (simp only: fadd.simps)
    moreover have "(1::nat) \<le> 2 ^ 53" by simp
    ultimately show ?thesis by blast
  next
    case 3
    then have "real n + 1 = 2 ^ 53 + 1" by simp
    then have "round64 (real n + 1) = Fin (2 ^ 53)" by (simp only: round64_two53_plus1)
    moreover have "real (2 ^ 53) = (2::real) ^ 53" by simp
    ultimately have "fadd (Fin (real n)) (Fin 1) = Fin (real (2 ^ 53))"
      by (simp only: fadd.simps)
    moreover have "(1::nat) \<le> 2 ^ 53" by simp
    ultimately show ?thesis by blast
  qed
qed

lemma count_term_values:
  assumes "\<forall>x \<in> snd ` set emb. \<exists>n. 1 \<le> n \<and> n \<le> 2 ^ 53 \<and> x = Fin (real n)"
  shows "\<forall>x \<in> snd ` set (count_term emb t). \<exists>n. 1 \<le> n \<and> n \<le> 2 ^ 53 \<and> x = Fin (real n)"
proof -
  have "\<exists>n. n \<le> 2 ^ 53 \<and> dict_get emb t (Fin 0) = Fin (real n)"
  proof (cases "map_of emb t")
    case None
    then have "(0::nat) \<le> 2 ^ 53 \<and> dict_get emb t (Fin 0) = Fin (real 0)"
      by (simp add: dict_get_def)
    then show ?thesis by (rule exI)
  next
    case (Some v)
    then have "v \<in> snd ` set emb" by (metis map_of_SomeD snd_conv image_eqI)
    with assms obtain n where "n \<le> 2 ^ 53" "v = Fin (real n)" by blast
    with Some show ?thesis by (auto simp: dict_get_def)
  qed
  then obtain n where n: "n \<le> 2 ^ 53" "dict_get emb t (Fin 0) = Fin (real n)" by blast
  from count_step [OF n(1)] obtain m where
    m: "1 \<le> m" "m \<le> 2 ^ 53" "fadd (dict_get emb t (Fin 0)) (Fin 1) = Fin (real m)"
    unfolding n(2) by blast
  show ?thesis
  proof
    fix x assume "x \<in> snd ` set (count_term emb t)"
    then have "x \<in> insert (fadd (dict_get emb t (Fin 0)) (Fin 1)) (snd ` set emb)"
      unfolding count_term_def using values_dict_set by (rule subsetD [rotated])
    then consider "x = Fin (real m)" | "x \<in> snd ` set emb" using m(3) by auto
    then show "\<exists>n. 1 \<le> n \<and> n \<le> 2 ^ 53 \<and> x = Fin (real n)"
    proof cases
      case 1
      with m(1,2) show ?thesis by blast
    next
      case 2
      with assms show ?thesis by blast
    qed
  qed
qed

lemma term_counts_count_vector: "count_vector (term_counts ts)"
proof -
  have "\<forall>x \<in> snd ` set (foldl count_term emb ts).
          \<exists>n. 1 \<le> n \<and> n \<le> 2 ^ 53 \<and> x = Fin (real n)"
    if "\<forall>x \<in> snd ` set emb. \<exists>n. 1 \<le> n \<and> n \<le> 2 ^ 53 \<and> x = Fin (real n)" for emb
    using that
  proof (induction ts arbitrary: emb)
    case Nil
    then show ?case by simp
  next
    case (Cons t ts)
    show ?case
      unfolding foldl_Cons by (rule Cons.IH [OF count_term_values [OF Cons.prems]])
  qed
  from this [of "[]"] show ?thesis
    by (simp add: count_vector_def term_counts_def [symmetric] term_counts_distinct)
qed

lemma ustr_examples:
  "ustr ''A b a c't'' = [65, 32, 98, 32, 97, 32, 99, 39, 116]"
  "ustr ''a'' = [97]" "ustr ''b'' = [98]" "ustr ''c't'' = [99, 39, 116]"
  "ustr ''a b c'' = [97, 32, 98, 32, 99]" "ustr ''c'' = [99]"
  by (simp_all add: ustr_def)

text \<open>
  C6. For any character database \<open>u\<close>, the vectorizer lowercases the slice, splits it on
  whitespace and keeps exactly the tokens that are purely alphabetic or purely
  alphanumeric: a token with a character that is in neither class (the apostrophe of
  "don't") is no key of the vector. Each kept term is mapped to the number of its
  occurrences among the tokens of that slice (the count is a float, exact below \<open>2\<^sup>5\<^sup>3\<close>),
  and the empty string gives the empty vector.
\<close>

theorem vectorizer_keeps_alnum_terms_with_counts:
  "(\<forall>t \<in> set (py_split u (py_lower u s)).
       (t \<in> fst ` set (chunk_embedding u s)) = (py_isalpha u t \<or> py_isalnum u t))
   \<and> (\<forall>t \<in> set (py_split u (py_lower u s)).
       (\<exists>c \<in> set t. \<not> alphabetic u c \<and> \<not> alphanumeric u c)
         \<longrightarrow> t \<notin> fst ` set (chunk_embedding u s))
   \<and> fst ` set (chunk_embedding u s) \<subseteq> set (py_split u (py_lower u s))
   \<and> distinct (map fst (chunk_embedding u s))
   \<and> (\<forall>t \<in> fst ` set (chunk_embedding u s).
         count_list (py_split u (py_lower u s)) t < 2 ^ 53 \<longrightarrow>
         map_of (chunk_embedding u s) t
           = Some (Fin (real (count_list (py_split u (py_lower u s)) t))))
   \<and> chunk_embedding u [] = []"
proof -
  let ?toks = "py_split u (py_lower u s)"
  let ?keep = "\<lambda>t. py_isalpha u t \<or> py_isalnum u t"
  have keys: "fst ` set (chunk_embedding u s) = {t \<in> set ?toks. ?keep t}"
    by (simp add: chunk_embedding_counts term_counts_keys chunk_terms_def)
  have a: "\<forall>t \<in> set ?toks. (t \<in> fst ` set (chunk_embedding u s)) = ?keep t"
    unfolding keys by simp
  have b: "\<forall>t \<in> set ?toks. (\<exists>c \<in> set t. \<not> alphabetic u c \<and> \<not> alphanumeric u c)
             \<longrightarrow> t \<notin> fst ` set (chunk_embedding u s)"
    unfolding keys by (auto simp: py_isalnum_def py_isalpha_def)
  have c: "fst ` set (chunk_embedding u s) \<subseteq> set ?toks"
    unfolding keys by blast
  have d: "distinct (map fst (chunk_embedding u s))"
    by (simp add: chunk_embedding_counts term_counts_distinct)
  have e: "\<forall>t \<in> fst ` set (chunk_embedding u s). count_list ?toks t < 2 ^ 53 \<longrightarrow>
         map_of (chunk_embedding u s) t = Some (Fin (real (count_list ?toks t)))"
  proof (intro ballI impI)
    fix t assume t: "t \<in> fst ` set (chunk_embedding u s)" and n: "count_list ?toks t < 2 ^ 53"
    from t have k: "?keep t" and m: "t \<in> set (chunk_terms u s)"
      unfolding keys by (simp_all add: chunk_terms_def)
    have "count_list (chunk_terms u s) t = count_list ?toks t"
      unfolding chunk_terms_def using k by (rule count_list_filter)
    with term_counts_map_of [OF m] n
    show "map_of (chunk_embedding u s) t = Some (Fin (real (count_list ?toks t)))"
      by (simp add: chunk_embedding_counts)
  qed
  have f: "chunk_embedding u [] = []"
    by (simp add: chunk_embedding_def chunk_terms_def py_split_def py_lower_def)
  from a b c d e f show ?thesis by blast
qed

theorem vectorizer_keeps_alnum_terms_with_counts_witness:
  "ustr ''a'' \<in> set (py_split ascii_tab (py_lower ascii_tab (ustr ''A b a c't'')))
   \<and> (py_isalpha ascii_tab (ustr ''a'') \<or> py_isalnum ascii_tab (ustr ''a''))
   \<and> ustr ''a'' \<in> fst ` set (chunk_embedding ascii_tab (ustr ''A b a c't''))
   \<and> ustr ''c't'' \<in> set (py_split ascii_tab (py_lower ascii_tab (ustr ''A b a c't'')))
   \<and> (\<exists>c \<in> set (ustr ''c't''). \<not> alphabetic ascii_tab c \<and> \<not> alphanumeric ascii_tab c)
   \<and> ustr ''c't'' \<notin> fst ` set (chunk_embedding ascii_tab (ustr ''A b a c't''))
   \<and> count_list (py_split ascii_tab (py_lower ascii_tab (ustr ''A b a c't''))) (ustr ''a'')
       < 2 ^ 53
   \<and> map_of (chunk_embedding ascii_tab (ustr ''A b a c't'')) (ustr ''a'') = Some (Fin 2)
   \<and> chunk_embedding ascii_tab [] = []"
proof -
  let ?s = "ustr ''A b a c't''"
  let ?a = "ustr ''a''"
  let ?c = "ustr ''c't''"
  let ?toks = "py_split ascii_tab (py_lower ascii_tab ?s)"
  note t = vectorizer_keeps_alnum_terms_with_counts [of ascii_tab ?s]
  note t0 = vectorizer_keeps_alnum_terms_with_counts [of ascii_tab "[]"]
  have low: "py_lower ascii_tab ?s = [97, 32, 98, 32, 97, 32, 99, 39, 116]"
    by (simp add: py_lower_def ascii_tab_def ustr_examples)
  have toks: "?toks = [[97], [98], [97], [99, 39, 116]]"
    unfolding low by (simp add: py_split_def ascii_tab_def)
  have in_a: "?a \<in> set ?toks" unfolding toks by (simp add: ustr_examples)
  have in_c: "?c \<in> set ?toks" unfolding toks by (simp add: ustr_examples)
  have keep_a: "py_isalpha ascii_tab ?a \<or> py_isalnum ascii_tab ?a"
    by (simp add: py_isalpha_def ascii_tab_def ustr_examples)
  have bad_c: "\<exists>c \<in> set ?c. \<not> alphabetic ascii_tab c \<and> \<not> alphanumeric ascii_tab c"
    by (simp add: ascii_tab_def ustr_examples)
  have cnt: "count_list ?toks ?a = 2" unfolding toks by (simp add: ustr_examples)
  then have small: "count_list ?toks ?a < 2 ^ 53" by simp
  from t in_a keep_a have key_a: "?a \<in> fst ` set (chunk_embedding ascii_tab ?s)" by blast
  from t in_c bad_c have nokey_c: "?c \<notin> fst ` set (chunk_embedding ascii_tab ?s)" by blast
  from t key_a small
  have "map_of (chunk_embedding ascii_tab ?s) ?a = Some (Fin (real (count_list ?toks ?a)))"
    by blast
  with cnt have val: "map_of (chunk_embedding ascii_tab ?s) ?a = Some (Fin 2)" by simp
  from t0 have e0: "chunk_embedding ascii_tab [] = []" by blast
  from in_a keep_a key_a in_c bad_c nokey_c small val e0 show ?thesis by blast
qed

text \<open>
  C7. The query vector that \<open>semantic_search\<close> builds from a string equals the embedding
  that \<open>ingest\<close> builds from the same string as a chunk slice.
\<close>

theorem query_vector_is_chunk_embedding: "query_vector u s = chunk_embedding u s"
  by (simp add: query_vector_def chunk_embedding_def query_tokens_def chunk_terms_def)

section \<open>Properties of the scoring function\<close>

lemma collect_map_Inr: "collect (map (\<lambda>x. Inr (f x)) xs) = Inr (map f xs)"
  by (induction xs) simp_all

lemma dict_get_float_vec:
  "dict_get (map (\<lambda>(k, v). (k, PNum v)) d) t (PNum (Fin 0)) = PNum (dict_get d t (Fin 0))"
  by (induction d) (auto simp: dict_get_def)

lemma round64_nonneg_below:
  "0 \<le> x \<Longrightarrow> not_below tiny (round64 x)"
  using round64_nonneg_cases [of x] unfolding tiny_def not_below_def by auto

lemma round64_nonneg_number: "0 \<le> x \<Longrightarrow> nonneg_number (round64 x)"
proof -
  assume x: "0 \<le> x"
  from round64_nonneg_cases [OF x] consider "round64 x = PInf"
    | r where "round64 x = Fin r" "r = 0 \<or> 1 / 2 ^ 1074 \<le> r" by blast
  then show ?thesis
  proof cases
    case 1
    then show ?thesis by (simp add: nonneg_number_def)
  next
    case 2
    have "(0::real) \<le> 1 / 2 ^ 1074" by simp
    with 2(2) have "0 \<le> r" by linarith
    with 2(1) show ?thesis by (simp add: nonneg_number_def)
  qed
qed

lemma fmul_self_below: "not_below tiny (fmul v v)"
proof (cases v)
  case (Fin a)
  then show ?thesis using round64_nonneg_below [of "a * a"] by simp
qed (simp_all add: not_below_def)

lemma not_below_nonneg:
  "not_below b (Fin a) \<Longrightarrow> 0 \<le> b \<Longrightarrow> 0 \<le> a"
  by (auto simp: not_below_def)

lemma fadd_below:
  assumes "not_below tiny x" "not_below tiny y"
  shows "not_below tiny (fadd x y)"
proof (cases x)
  case xf: (Fin a)
  show ?thesis
  proof (cases y)
    case (Fin b)
    have "0 \<le> a" "0 \<le> b"
      using assms xf Fin not_below_nonneg [of tiny] by (simp_all add: tiny_def)
    then have "0 \<le> a + b" by simp
    then show ?thesis using xf Fin by (simp add: round64_nonneg_below)
  qed (use assms xf in \<open>simp_all add: not_below_def\<close>)
next
  case PInf
  then show ?thesis using assms by (cases y) (simp_all add: not_below_def)
next
  case NInf
  then show ?thesis using assms by (simp add: not_below_def)
next
  case NaN
  then show ?thesis by (simp add: not_below_def)
qed

lemma foldl_fadd_below:
  "not_below tiny acc \<Longrightarrow> \<forall>x \<in> set xs. not_below tiny x \<Longrightarrow>
   not_below tiny (foldl fadd acc xs)"
  by (induction xs arbitrary: acc) (simp_all add: fadd_below del: fadd.simps)

lemma sq_sum_below: "not_below tiny (sq_sum v)"
proof -
  have "not_below tiny (Fin 0)" by (simp add: not_below_def)
  moreover have "\<forall>x \<in> set (map (\<lambda>x. fmul x x) (map snd v)). not_below tiny x"
    by (simp add: fmul_self_below del: fmul.simps)
  ultimately show ?thesis unfolding sq_sum_def py_sum_def by (rule foldl_fadd_below)
qed

lemma sqrt_ge_half_power:
  assumes "1 / 2 ^ 1074 \<le> a"
  shows "1 / 2 ^ 537 \<le> sqrt a"
proof (rule real_le_rsqrt)
  have "((1::real) / 2 ^ 537)\<^sup>2 = 1 / 2 ^ (537 * 2)"
    by (simp only: power_divide power_one power_mult)
  also have "\<dots> = 1 / 2 ^ 1074" by simp
  finally show "(1 / 2 ^ 537)\<^sup>2 \<le> a" using assms by simp
qed

lemma math_sqrt_below:
  assumes "not_below tiny x"
  shows "\<exists>y. math_sqrt x = Inr y \<and> not_below root_tiny y"
proof (cases x)
  case (Fin a)
  with assms consider "a = 0" | "1 / 2 ^ 1074 \<le> a"
    unfolding not_below_def tiny_def by auto
  then show ?thesis
  proof cases
    case 1
    with Fin show ?thesis by (simp add: not_below_def)
  next
    case 2
    have "(0::real) \<le> 1 / 2 ^ 1074" by simp
    with 2 have nn: "\<not> a < 0" by linarith
    have "1 / 2 ^ 537 \<le> sqrt a" using 2 by (rule sqrt_ge_half_power)
    from round64_ge_inv [OF this] consider "round64 (sqrt a) = PInf"
      | r where "round64 (sqrt a) = Fin r" "root_tiny \<le> r"
      unfolding root_tiny_def by auto
    then show ?thesis
      using Fin nn by cases (simp_all add: not_below_def)
  qed
next
  case NInf
  with assms show ?thesis by (simp add: not_below_def)
qed (simp_all add: not_below_def)

lemma math_sqrt_sq_sum: "math_sqrt (sq_sum v) = Inr (norm2 v)"
  using math_sqrt_below [OF sq_sum_below [of v]] by (auto simp: norm2_def)

lemma norm2_below: "not_below root_tiny (norm2 v)"
  using math_sqrt_below [OF sq_sum_below [of v]] by (auto simp: norm2_def)

lemma fmul_roots_nonzero:
  assumes "not_below root_tiny x" "not_below root_tiny y" "x \<noteq> Fin 0" "y \<noteq> Fin 0"
  shows "fmul x y \<noteq> Fin 0"
proof (cases x)
  case xf: (Fin a)
  with assms have a: "1 / 2 ^ 537 \<le> a" by (simp add: not_below_def root_tiny_def)
  have h: "(0::real) < 1 / 2 ^ 537" by simp
  with a have apos: "0 < a" by linarith
  show ?thesis
  proof (cases y)
    case (Fin b)
    with assms have b: "1 / 2 ^ 537 \<le> b" by (simp add: not_below_def root_tiny_def)
    have "(1 / 2 ^ 537) * (1 / 2 ^ 537) \<le> a * b"
      using a b h by (intro mult_mono) simp_all
    moreover have "((1::real) / 2 ^ 537) * (1 / 2 ^ 537) = 1 / 2 ^ (537 + 537)"
      by (simp only: power_add times_divide_times_eq mult_1)
    moreover have "(537::nat) + 537 = 1074" by simp
    ultimately have "1 / 2 ^ 1074 \<le> a * b" by simp
    from round64_ge_inv [OF this] consider "round64 (a * b) = PInf"
      | r where "round64 (a * b) = Fin r" "1 / 2 ^ 1074 \<le> r" by auto
    then show ?thesis
    proof cases
      case 1
      with xf Fin show ?thesis by simp
    next
      case 2
      have "(0::real) < 1 / 2 ^ 1074" by simp
      with 2(2) have "r \<noteq> 0" by linarith
      with 2(1) xf Fin show ?thesis by simp
    qed
  qed (use xf apos assms in \<open>simp_all add: not_below_def\<close>)
next
  case PInf
  then show ?thesis using assms by (cases y) (auto simp: not_below_def)
next
  case NInf
  then show ?thesis using assms by (simp add: not_below_def)
next
  case NaN
  then show ?thesis by simp
qed

lemma fdiv_total: "y \<noteq> Fin 0 \<Longrightarrow> \<exists>r. fdiv x y = Inr r"
  by (cases x; cases y) auto

lemma score_float_vec:
  "score q (float_vec d) =
     (if q = [] \<or> d = [] then Inr (Fin 0)
      else if norm2 q \<noteq> Fin 0 \<and> norm2 d \<noteq> Fin 0
           then fdiv (dot_over q d) (fmul (norm2 q) (norm2 d))
           else Inr (Fin 0))"
proof -
  have prods: "collect (map (\<lambda>t. times_float (dict_get q t (Fin 0))
                   (dict_get (map (\<lambda>(k, v). (k, PNum v)) d) t (PNum (Fin 0)))) (map fst q))
        = Inr (map (\<lambda>t. fmul (dict_get q t (Fin 0)) (dict_get d t (Fin 0))) (map fst q))"
    by (simp add: dict_get_float_vec collect_map_Inr comp_def del: fmul.simps)
  have sqs: "collect (map times_self (map snd (map (\<lambda>(k, v). (k, PNum v)) d)))
        = Inr (map (\<lambda>x. fmul x x) (map snd d))"
  proof -
    have "map times_self (map snd (map (\<lambda>(k, v). (k, PNum v)) d))
          = map (\<lambda>x. Inr (fmul x x)) (map snd d)"
      by (induction d) (auto simp del: fmul.simps)
    then show ?thesis by (simp only: collect_map_Inr)
  qed
  have qn: "math_sqrt (py_sum (map (\<lambda>v. fmul v v) (map snd q))) = Inr (norm2 q)"
    using math_sqrt_sq_sum [of q] by (simp only: sq_sum_def)
  have dn: "math_sqrt (py_sum (map (\<lambda>x. fmul x x) (map snd d))) = Inr (norm2 d)"
    using math_sqrt_sq_sum [of d] by (simp only: sq_sum_def)
  show ?thesis
    unfolding score_def float_vec_def
    by (simp del: map_map fmul.simps fdiv.simps math_sqrt.simps
          add: prods sqs qn dn Let_def dot_over_def float_truthy_def)
qed

lemma score_float_vec_total: "\<exists>r. score q (float_vec d) = Inr r"
proof (cases "q \<noteq> [] \<and> d \<noteq> [] \<and> norm2 q \<noteq> Fin 0 \<and> norm2 d \<noteq> Fin 0")
  case True
  then have "fmul (norm2 q) (norm2 d) \<noteq> Fin 0"
    using fmul_roots_nonzero [OF norm2_below norm2_below] by blast
  then obtain r where "fdiv (dot_over q d) (fmul (norm2 q) (norm2 d)) = Inr r"
    using fdiv_total by blast
  with True show ?thesis by (simp add: score_float_vec del: fmul.simps fdiv.simps)
next
  case False
  then show ?thesis by (auto simp: score_float_vec simp del: fmul.simps fdiv.simps)
qed

lemma fadd_nonneg_number:
  assumes "nonneg_number x" "nonneg_number y"
  shows "nonneg_number (fadd x y)"
proof (cases x)
  case xf: (Fin a)
  show ?thesis
  proof (cases y)
    case (Fin b)
    with assms xf have "0 \<le> a + b" by (simp add: nonneg_number_def)
    then have "nonneg_number (round64 (a + b))" by (rule round64_nonneg_number)
    with xf Fin show ?thesis by simp
  qed (use assms xf in \<open>simp_all add: nonneg_number_def\<close>)
next
  case PInf
  then show ?thesis using assms by (cases y) (simp_all add: nonneg_number_def)
qed (use assms in \<open>simp_all add: nonneg_number_def\<close>)

lemma foldl_fadd_nonneg_number:
  "nonneg_number acc \<Longrightarrow> \<forall>x \<in> set xs. nonneg_number x \<Longrightarrow>
   nonneg_number (foldl fadd acc xs)"
  by (induction xs arbitrary: acc) (simp_all add: fadd_nonneg_number del: fadd.simps)

lemma sq_sum_nonneg_number:
  assumes "finite_weights v"
  shows "nonneg_number (sq_sum v)"
  unfolding sq_sum_def py_sum_def
proof (rule foldl_fadd_nonneg_number)
  show "nonneg_number (Fin 0)" by (simp add: nonneg_number_def)
  show "\<forall>x \<in> set (map (\<lambda>x. fmul x x) (map snd v)). nonneg_number x"
  proof
    fix x assume "x \<in> set (map (\<lambda>x. fmul x x) (map snd v))"
    then obtain w where w: "w \<in> snd ` set v" and x: "x = fmul w w" by auto
    from w assms obtain a where "w = Fin a" unfolding finite_weights_def by blast
    with x show "nonneg_number x" by (simp add: round64_nonneg_number)
  qed
qed

lemma norm2_nonneg_number:
  assumes "finite_weights v"
  shows "nonneg_number (norm2 v)"
proof (cases "sq_sum v")
  case (Fin a)
  with sq_sum_nonneg_number [OF assms] have "0 \<le> a" by (simp add: nonneg_number_def)
  then have "norm2 v = round64 (sqrt a)" "0 \<le> sqrt a"
    using Fin by (simp_all add: norm2_def)
  then show ?thesis by (simp add: round64_nonneg_number)
next
  case PInf
  then show ?thesis by (simp add: norm2_def nonneg_number_def)
next
  case NInf
  with sq_sum_nonneg_number [OF assms] show ?thesis by (simp add: nonneg_number_def)
next
  case NaN
  with sq_sum_nonneg_number [OF assms] show ?thesis by (simp add: nonneg_number_def)
qed

lemma fmul_nonneg_number:
  assumes "nonneg_number x" "nonneg_number y" "x \<noteq> Fin 0" "y \<noteq> Fin 0"
  shows "nonneg_number (fmul x y)"
proof (cases x)
  case xf: (Fin a)
  with assms have a: "0 < a" by (simp add: nonneg_number_def)
  show ?thesis
  proof (cases y)
    case (Fin b)
    with assms have "0 \<le> b" by (simp add: nonneg_number_def)
    with a have "0 \<le> a * b" by simp
    then have "nonneg_number (round64 (a * b))" by (rule round64_nonneg_number)
    with xf Fin show ?thesis by simp
  qed (use assms xf a in \<open>simp_all add: nonneg_number_def\<close>)
next
  case PInf
  then show ?thesis using assms by (cases y) (auto simp: nonneg_number_def)
qed (use assms in \<open>simp_all add: nonneg_number_def\<close>)

lemma fdiv_zero_by_number:
  assumes "nonneg_number z" "z \<noteq> Fin 0"
  shows "fdiv (Fin 0) z = Inr (Fin 0)"
  using assms by (cases z) (simp_all add: nonneg_number_def)

lemma py_sum_zeros: "\<forall>x \<in> set xs. x = Fin 0 \<Longrightarrow> py_sum xs = Fin 0"
proof -
  have "\<forall>x \<in> set xs. x = Fin 0 \<Longrightarrow> foldl fadd (Fin 0) xs = Fin 0"
    by (induction xs) simp_all
  then show "\<forall>x \<in> set xs. x = Fin 0 \<Longrightarrow> py_sum xs = Fin 0" by (simp add: py_sum_def)
qed

lemma dict_get_missing: "t \<notin> fst ` set d \<Longrightarrow> dict_get d t dflt = dflt"
  by (simp add: dict_get_def map_of_eq_None_iff [THEN iffD2])

lemma dict_get_finite:
  assumes "finite_weights q"
  shows "\<exists>a. dict_get q t (Fin 0) = Fin a"
proof (cases "map_of q t")
  case None
  then show ?thesis by (simp add: dict_get_def)
next
  case (Some v)
  then have "v \<in> snd ` set q" by (metis map_of_SomeD snd_conv image_eqI)
  with assms obtain a where "v = Fin a" unfolding finite_weights_def by blast
  with Some show ?thesis by (simp add: dict_get_def)
qed

lemma dot_over_disjoint:
  assumes "finite_weights q" "fst ` set q \<inter> fst ` set d = {}"
  shows "dot_over q d = Fin 0"
proof -
  have "\<forall>x \<in> set (map (\<lambda>t. fmul (dict_get q t (Fin 0)) (dict_get d t (Fin 0))) (map fst q)).
          x = Fin 0"
  proof
    fix x
    assume "x \<in> set (map (\<lambda>t. fmul (dict_get q t (Fin 0)) (dict_get d t (Fin 0))) (map fst q))"
    then obtain t where t: "t \<in> fst ` set q"
      and x: "x = fmul (dict_get q t (Fin 0)) (dict_get d t (Fin 0))"
      by auto
    from t assms(2) have "t \<notin> fst ` set d" by blast
    then have "dict_get d t (Fin 0) = Fin 0" by (rule dict_get_missing)
    moreover from dict_get_finite [OF assms(1)] obtain a where "dict_get q t (Fin 0) = Fin a"
      by blast
    ultimately show "x = Fin 0" using x by simp
  qed
  then show ?thesis unfolding dot_over_def by (rule py_sum_zeros)
qed

text \<open>
  C4. On dictionaries of floats the scoring function always returns a float: neither the
  division nor a square root raises. It returns 0.0 whenever the query vector is empty,
  the stored vector is empty or either Euclidean norm is 0 (also a norm that underflows
  to 0), and when the two vectors have no common key and their weights are numbers, as
  the weights of a sparse vector are (finite floats, no infinity and no NaN). The division
  is reached only with both norms nonzero, and its divisor, the rounded product of the
  norms, is then nonzero.
\<close>

theorem score_total_zero_cases:
  "(\<exists>r. score q (float_vec d) = Inr r)
   \<and> math_sqrt (sq_sum q) = Inr (norm2 q) \<and> math_sqrt (sq_sum d) = Inr (norm2 d)
   \<and> (q = [] \<or> d = [] \<or> norm2 q = Fin 0 \<or> norm2 d = Fin 0
        \<longrightarrow> score q (float_vec d) = Inr (Fin 0))
   \<and> (finite_weights q \<and> finite_weights d \<and> fst ` set q \<inter> fst ` set d = {}
        \<longrightarrow> score q (float_vec d) = Inr (Fin 0))
   \<and> (q \<noteq> [] \<and> d \<noteq> [] \<and> norm2 q \<noteq> Fin 0 \<and> norm2 d \<noteq> Fin 0
        \<longrightarrow> fmul (norm2 q) (norm2 d) \<noteq> Fin 0
            \<and> score q (float_vec d) = fdiv (dot_over q d) (fmul (norm2 q) (norm2 d)))"
proof -
  have nz: "fmul (norm2 q) (norm2 d) \<noteq> Fin 0" if "norm2 q \<noteq> Fin 0" "norm2 d \<noteq> Fin 0"
    using fmul_roots_nonzero [OF norm2_below norm2_below that] .
  have a: "\<exists>r. score q (float_vec d) = Inr r" by (rule score_float_vec_total)
  have b: "score q (float_vec d) = Inr (Fin 0)"
    if "q = [] \<or> d = [] \<or> norm2 q = Fin 0 \<or> norm2 d = Fin 0"
    using that by (auto simp: score_float_vec simp del: fmul.simps fdiv.simps)
  have c: "score q (float_vec d) = Inr (Fin 0)"
    if h: "finite_weights q \<and> finite_weights d \<and> fst ` set q \<inter> fst ` set d = {}"
  proof (cases "q = [] \<or> d = [] \<or> norm2 q = Fin 0 \<or> norm2 d = Fin 0")
    case True
    then show ?thesis by (rule b)
  next
    case False
    from h have dot: "dot_over q d = Fin 0" by (simp add: dot_over_disjoint)
    from False have n: "norm2 q \<noteq> Fin 0" "norm2 d \<noteq> Fin 0" by simp_all
    from h have "nonneg_number (norm2 q)" "nonneg_number (norm2 d)"
      by (simp_all add: norm2_nonneg_number)
    then have "nonneg_number (fmul (norm2 q) (norm2 d))"
      using n by (rule fmul_nonneg_number)
    then have "fdiv (Fin 0) (fmul (norm2 q) (norm2 d)) = Inr (Fin 0)"
      using nz [OF n] by (rule fdiv_zero_by_number)
    with False dot show ?thesis
      by (simp add: score_float_vec del: fmul.simps fdiv.simps)
  qed
  have e: "fmul (norm2 q) (norm2 d) \<noteq> Fin 0
            \<and> score q (float_vec d) = fdiv (dot_over q d) (fmul (norm2 q) (norm2 d))"
    if "q \<noteq> [] \<and> d \<noteq> [] \<and> norm2 q \<noteq> Fin 0 \<and> norm2 d \<noteq> Fin 0"
    using that nz by (simp add: score_float_vec del: fmul.simps fdiv.simps)
  from a b c e math_sqrt_sq_sum [of q] math_sqrt_sq_sum [of d] show ?thesis by blast
qed

lemma round64_one [simp]: "round64 1 = Fin 1"
  using round64_of_nat [of 1] by simp

lemma round64_numeral: "(numeral w :: nat) < 2 ^ 53 \<Longrightarrow> round64 (numeral w) = Fin (numeral w)"
  using round64_of_nat [of "numeral w"] by simp

lemma norm2_unit: "norm2 [(k, Fin 1)] = Fin 1"
  by (simp add: norm2_def sq_sum_def py_sum_def)

lemma rhe_small: "0 \<le> y \<Longrightarrow> y < 1 / 2 \<Longrightarrow> rhe y = 0"
  by (rule rhe_interval) simp_all

lemma round64_underflow: "round64 (small_weight * small_weight) = Fin 0"
proof -
  have "rhe (small_weight * small_weight * 2 ^ 1074) = 0"
    unfolding small_weight_def by (rule rhe_small) simp_all
  moreover have "\<bar>small_weight * small_weight\<bar> < 1 / 2 ^ 1022"
    unfolding small_weight_def by simp
  ultimately show ?thesis by (simp add: round64_def)
qed

lemma norm2_underflow: "norm2 [(k, Fin small_weight)] = Fin 0"
  by (simp add: norm2_def sq_sum_def py_sum_def round64_underflow)

theorem score_total_zero_cases_witness:
  "finite_weights [(ustr ''a'', Fin 1)] \<and> finite_weights [(ustr ''b'', Fin 1)]
   \<and> fst ` set [(ustr ''a'', Fin 1)] \<inter> fst ` set [(ustr ''b'', Fin 1)] = {}
   \<and> [(ustr ''a'', Fin 1)] \<noteq> [] \<and> [(ustr ''b'', Fin 1)] \<noteq> []
   \<and> norm2 [(ustr ''a'', Fin 1)] \<noteq> Fin 0 \<and> norm2 [(ustr ''b'', Fin 1)] \<noteq> Fin 0
   \<and> score [(ustr ''a'', Fin 1)] (float_vec [(ustr ''b'', Fin 1)]) = Inr (Fin 0)
   \<and> fmul (norm2 [(ustr ''a'', Fin 1)]) (norm2 [(ustr ''b'', Fin 1)]) \<noteq> Fin 0
   \<and> score [(ustr ''a'', Fin 1)] (float_vec [(ustr ''b'', Fin 1)])
       = fdiv (dot_over [(ustr ''a'', Fin 1)] [(ustr ''b'', Fin 1)])
              (fmul (norm2 [(ustr ''a'', Fin 1)]) (norm2 [(ustr ''b'', Fin 1)]))
   \<and> norm2 [(ustr ''a'', Fin small_weight)] = Fin 0
   \<and> score [(ustr ''a'', Fin 1)] (float_vec [(ustr ''a'', Fin small_weight)]) = Inr (Fin 0)"
proof -
  let ?q = "[(ustr ''a'', Fin 1)]"
  let ?d = "[(ustr ''b'', Fin 1)]"
  let ?s = "[(ustr ''a'', Fin small_weight)]"
  note t = score_total_zero_cases [of ?q ?d]
  note u = score_total_zero_cases [of ?q ?s]
  have fw: "finite_weights ?q" "finite_weights ?d" by (simp_all add: finite_weights_def)
  have disj: "fst ` set ?q \<inter> fst ` set ?d = {}" by (simp add: ustr_examples)
  have ne: "?q \<noteq> []" "?d \<noteq> []" by simp_all
  have nz: "norm2 ?q \<noteq> Fin 0" "norm2 ?d \<noteq> Fin 0" by (simp_all add: norm2_unit)
  from t fw disj have z: "score ?q (float_vec ?d) = Inr (Fin 0)" by blast
  from t ne nz have d: "fmul (norm2 ?q) (norm2 ?d) \<noteq> Fin 0
     \<and> score ?q (float_vec ?d) = fdiv (dot_over ?q ?d) (fmul (norm2 ?q) (norm2 ?d))"
    by blast
  have n0: "norm2 ?s = Fin 0" by (rule norm2_underflow)
  with u have s0: "score ?q (float_vec ?s) = Inr (Fin 0)" by blast
  from fw disj ne nz z d n0 s0 show ?thesis by blast
qed

lemma rnd_between:
  assumes "0 \<le> x"
  shows "x * (1 - 1 / 2 ^ 53) \<le> round_sig x" "round_sig x \<le> x * (1 + 1 / 2 ^ 53)"
proof -
  have e: "\<bar>round_sig x - x\<bar> \<le> x / 2 ^ 53" using rnd_error [of x] assms by simp
  then have "x - x / 2 ^ 53 \<le> round_sig x" "round_sig x \<le> x + x / 2 ^ 53" by linarith+
  then show "x * (1 - 1 / 2 ^ 53) \<le> round_sig x" "round_sig x \<le> x * (1 + 1 / 2 ^ 53)"
    by (simp_all add: algebra_simps)
qed

lemma u_upper: "(1 + 1 / 2 ^ 53) / ((1 - 1 / 2 ^ 53) ^ 3) \<le> (1 + 1 / 2 ^ 50 :: real)"
  by (simp add: field_simps power3_eq_cube)

lemma u_lower: "(1 - 1 / 2 ^ 50 :: real) \<le> (1 - 1 / 2 ^ 53) / ((1 + 1 / 2 ^ 53) ^ 3)"
  by (simp add: field_simps power3_eq_cube)

lemma self_ratio_bound:
  assumes S: "0 < S"
  shows "\<bar>round_sig (S / round_sig (round_sig (sqrt S) * round_sig (sqrt S))) - 1\<bar> \<le> 1 / 2 ^ 50"
proof -
  define lo :: real where "lo = 1 - 1 / 2 ^ 53"
  define hi :: real where "hi = 1 + 1 / 2 ^ 53"
  have lo: "0 < lo" and hi: "0 < hi" by (simp_all add: lo_def hi_def)
  define a where "a = sqrt S"
  define s where "s = round_sig a"
  define p where "p = round_sig (s * s)"
  define x where "x = S / p"
  have a: "0 < a" and aa: "a * a = S" using S by (simp_all add: a_def)
  have s1: "a * lo \<le> s" and s2: "s \<le> a * hi"
    using rnd_between [of a] a by (simp_all add: s_def lo_def hi_def)
  have spos: "0 < s" using a by (simp add: s_def)
  have "(a * lo) * (a * lo) \<le> s * s"
    using s1 a lo spos by (intro mult_mono) simp_all
  moreover have "(a * lo) * (a * lo) = S * lo ^ 2"
    unfolding aa [symmetric] by (simp add: power2_eq_square)
  ultimately have q1: "S * lo ^ 2 \<le> s * s" by simp
  have "s * s \<le> (a * hi) * (a * hi)"
    using s2 spos by (intro mult_mono) simp_all
  moreover have "(a * hi) * (a * hi) = S * hi ^ 2"
    unfolding aa [symmetric] by (simp add: power2_eq_square)
  ultimately have q2: "s * s \<le> S * hi ^ 2" by simp
  have sspos: "0 < s * s" using spos by simp
  have p1: "s * s * lo \<le> p" and p2: "p \<le> s * s * hi"
    using rnd_between [of "s * s"] sspos by (simp_all add: p_def lo_def hi_def)
  have "S * lo ^ 2 * lo \<le> s * s * lo" using q1 lo by (intro mult_right_mono) simp_all
  with p1 have P1: "S * lo ^ 3 \<le> p" by (simp add: power3_eq_cube power2_eq_square algebra_simps)
  have "s * s * hi \<le> S * hi ^ 2 * hi" using q2 hi by (intro mult_right_mono) simp_all
  with p2 have P2: "p \<le> S * hi ^ 3" by (simp add: power3_eq_cube power2_eq_square algebra_simps)
  have ppos: "0 < p" using sspos by (simp add: p_def)
  have x2: "x \<le> 1 / lo ^ 3"
  proof -
    have "S / p \<le> S / (S * lo ^ 3)"
      using P1 S lo ppos by (intro divide_left_mono) simp_all
    then show ?thesis using S by (simp add: x_def)
  qed
  have x1: "1 / hi ^ 3 \<le> x"
  proof -
    have "S / (S * hi ^ 3) \<le> S / p"
      using P2 S hi ppos by (intro divide_left_mono) simp_all
    then show ?thesis using S by (simp add: x_def)
  qed
  have xpos: "0 < x" using S ppos by (simp add: x_def)
  have r1: "x * lo \<le> round_sig x" and r2: "round_sig x \<le> x * hi"
    using rnd_between [of x] xpos by (simp_all add: lo_def hi_def)
  have "round_sig x \<le> (1 / lo ^ 3) * hi"
    using r2 x2 hi by (meson mult_right_mono less_imp_le order_trans)
  also have "\<dots> = hi / lo ^ 3" by simp
  also have "\<dots> \<le> 1 + 1 / 2 ^ 50" unfolding lo_def hi_def by (rule u_upper)
  finally have up: "round_sig x \<le> 1 + 1 / 2 ^ 50" .
  have "1 - 1 / 2 ^ 50 \<le> lo / hi ^ 3" unfolding lo_def hi_def by (rule u_lower)
  also have "\<dots> = (1 / hi ^ 3) * lo" by simp
  also have "\<dots> \<le> x * lo" using x1 lo by (intro mult_right_mono) simp_all
  also have "\<dots> \<le> round_sig x" by (rule r1)
  finally have dn: "1 - 1 / 2 ^ 50 \<le> round_sig x" .
  have "round_sig (S / round_sig (round_sig (sqrt S) * round_sig (sqrt S))) = round_sig x"
    by (simp add: x_def p_def s_def a_def)
  moreover from up dn have "\<bar>round_sig x - 1\<bar> \<le> 1 / 2 ^ 50" by linarith
  ultimately show ?thesis by (simp only:)
qed


lemma dict_get_own:
  assumes "distinct (map fst q)" "p \<in> set q"
  shows "dict_get q (fst p) dflt = snd p"
proof -
  from assms have "map_of q (fst p) = Some (snd p)"
    by (cases p) (simp add: map_of_is_SomeI)
  then show ?thesis by (simp add: dict_get_def)
qed

lemma dot_over_self:
  assumes "distinct (map fst q)"
  shows "dot_over q q = py_sum (map (\<lambda>x. fmul x x) (map snd q))"
proof -
  have "map (\<lambda>t. fmul (dict_get q t (Fin 0)) (dict_get q t (Fin 0))) (map fst q)
        = map (\<lambda>x. fmul x x) (map snd q)"
    using dict_get_own [OF assms] by (simp add: comp_def)
  then show ?thesis by (simp only: dot_over_def)
qed

lemma round64_between:
  assumes "1 \<le> x" "x \<le> 2 ^ k * (1 + 1 / 2 ^ 54)" "k \<le> 1022"
  shows "round64 x = Fin (round_sig x) \<and> 1 \<le> round_sig x \<and> round_sig x \<le> 2 ^ k"
proof -
  have "(1::real) / 2 ^ 1022 \<le> 1" by simp
  with assms(1) have lo: "1 / 2 ^ 1022 \<le> x" by linarith
  have "(2::real) ^ k * (1 + 1 / 2 ^ 54) \<le> 2 ^ k * 2" by (intro mult_left_mono) simp_all
  also have "\<dots> = 2 ^ Suc k" by simp
  also have "\<dots> \<le> 2 ^ 1023" using assms(3) by (intro power_increasing) simp_all
  finally have hi: "x \<le> 2 ^ 1023" using assms(2) by linarith
  have "2 ^ 0 \<le> round_sig x" using assms(1) by (intro round_sig_ge_nat) simp
  then have "1 \<le> round_sig x" by simp
  moreover have "round_sig x \<le> 2 ^ k" using assms(1,2) by (intro round_sig_le_slack) simp_all
  ultimately show ?thesis using round64_normal [OF lo hi] by simp
qed

lemma square_count:
  assumes "1 \<le> n" "n \<le> 2 ^ 53"
  shows "fin_between 1 (2 ^ 106) (fmul (Fin (real n)) (Fin (real n)))"
proof -
  have n1: "1 \<le> real n" using assms(1) by simp
  have n2: "real n \<le> 2 ^ 53"
    using assms(2) by (metis of_nat_le_iff of_nat_numeral of_nat_power)
  have "1 * 1 \<le> real n * real n" using n1 by (intro mult_mono) simp_all
  then have lo: "1 \<le> real n * real n" by simp
  have "real n * real n \<le> 2 ^ 53 * 2 ^ 53" using n2 by (intro mult_mono) simp_all
  also have "(2::real) ^ 53 * 2 ^ 53 = 2 ^ 106" by simp
  also have "(2::real) ^ 106 \<le> 2 ^ 106 * (1 + 1 / 2 ^ 54)" by simp
  finally have hi: "real n * real n \<le> 2 ^ 106 * (1 + 1 / 2 ^ 54)" .
  from round64_between [OF lo hi] show ?thesis by (simp add: fin_between_def)
qed

lemma fadd_count_step:
  assumes "fin_between 0 (2 ^ 161) acc" "fin_between 1 (2 ^ 106) x"
  shows "fin_between 1 (2 ^ 161) (fadd acc x)"
proof -
  from assms(1) obtain a where a: "acc = Fin a" "0 \<le> a" "a \<le> 2 ^ 161"
    by (cases acc) (simp_all add: fin_between_def)
  from assms(2) obtain s where s: "x = Fin s" "1 \<le> s" "s \<le> 2 ^ 106"
    by (cases x) (simp_all add: fin_between_def)
  have lo: "1 \<le> a + s" using a(2) s(2) by linarith
  have "(2::real) ^ 106 \<le> 2 ^ 161 * (1 / 2 ^ 54)" by simp
  then have "a + s \<le> 2 ^ 161 + 2 ^ 161 * (1 / 2 ^ 54)" using a(3) s(3) by linarith
  then have hi: "a + s \<le> 2 ^ 161 * (1 + 1 / 2 ^ 54)" by (simp add: algebra_simps)
  from round64_between [OF lo hi] a(1) s(1) show ?thesis by (simp add: fin_between_def)
qed

lemma fin_between_weaken: "fin_between 1 hi x \<Longrightarrow> fin_between 0 hi x"
  by (cases x) (simp_all add: fin_between_def)

lemma foldl_counts:
  "fin_between 1 (2 ^ 161) acc \<Longrightarrow> \<forall>x \<in> set xs. fin_between 1 (2 ^ 106) x \<Longrightarrow>
   fin_between 1 (2 ^ 161) (foldl fadd acc xs)"
proof (induction xs arbitrary: acc)
  case Nil
  then show ?case by simp
next
  case (Cons x xs)
  from Cons.prems have "fin_between 1 (2 ^ 161) (fadd acc x)"
    by (intro fadd_count_step fin_between_weaken) simp_all
  with Cons.prems(2) show ?case
    unfolding foldl_Cons by (intro Cons.IH) simp_all
qed

lemma sq_sum_counts:
  assumes "q \<noteq> []" "count_vector q"
  shows "fin_between 1 (2 ^ 161) (sq_sum q)"
proof -
  have sq: "\<forall>x \<in> set (map (\<lambda>x. fmul x x) (map snd q)). fin_between 1 (2 ^ 106) x"
  proof
    fix x assume "x \<in> set (map (\<lambda>x. fmul x x) (map snd q))"
    then obtain w where w: "w \<in> snd ` set q" and x: "x = fmul w w" by auto
    from w assms(2) obtain n where "1 \<le> n" "n \<le> 2 ^ 53" "w = Fin (real n)"
      unfolding count_vector_def by blast
    with x square_count show "fin_between 1 (2 ^ 106) x" by blast
  qed
  from assms(1) obtain y ys where ys: "map (\<lambda>x. fmul x x) (map snd q) = y # ys"
    by (cases q) auto
  have z: "fin_between 0 (2 ^ 161) (Fin 0)" by (simp add: fin_between_def)
  from sq have "\<forall>x \<in> set (y # ys). fin_between 1 (2 ^ 106) x" by (simp only: ys)
  then have "fin_between 1 (2 ^ 106) y" "\<forall>x \<in> set ys. fin_between 1 (2 ^ 106) x"
    by (simp_all only: list.set ball_simps insert_iff simp_thms) blast+
  then have "fin_between 1 (2 ^ 161) (foldl fadd (fadd (Fin 0) y) ys)"
    using z by (intro foldl_counts fadd_count_step)
  then show ?thesis by (simp only: sq_sum_def py_sum_def ys foldl_Cons)
qed

lemma self_score_counts:
  assumes "q \<noteq> []" "count_vector q"
  shows "\<exists>r. score q (float_vec q) = Inr (Fin r) \<and> \<bar>r - 1\<bar> \<le> 1 / 2 ^ 50"
proof -
  from sq_sum_counts [OF assms] obtain S where S: "sq_sum q = Fin S" "1 \<le> S" "S \<le> 2 ^ 161"
    by (cases "sq_sum q") (simp_all add: fin_between_def)
  have Spos: "0 < S" using S(2) by linarith
  define a where "a = sqrt S"
  have a1: "1 \<le> a" using S(2) by (simp add: a_def)
  have "a \<le> S" unfolding a_def using S(2) by (simp add: sqrt_le_D real_le_lsqrt power2_eq_square)
  also have "S \<le> 2 ^ 161 * (1 + 1 / 2 ^ 54)" using S(3) by simp
  finally have a2: "a \<le> 2 ^ 161 * (1 + 1 / 2 ^ 54)" .
  define s where "s = round_sig a"
  from round64_between [OF a1 a2] have s: "round64 a = Fin s" "1 \<le> s" "s \<le> 2 ^ 161"
    by (simp_all add: s_def)
  have n: "norm2 q = Fin s"
    using S Spos s(1) by (simp add: norm2_def a_def)
  have "1 * 1 \<le> s * s" using s(2) by (intro mult_mono) simp_all
  then have ss1: "1 \<le> s * s" by simp
  have "s * s \<le> 2 ^ 161 * 2 ^ 161" using s(2,3) by (intro mult_mono) simp_all
  also have "(2::real) ^ 161 * 2 ^ 161 = 2 ^ 322" by simp
  also have "(2::real) ^ 322 \<le> 2 ^ 322 * (1 + 1 / 2 ^ 54)" by simp
  finally have ss2: "s * s \<le> 2 ^ 322 * (1 + 1 / 2 ^ 54)" .
  define p where "p = round_sig (s * s)"
  from round64_between [OF ss1 ss2] have p: "round64 (s * s) = Fin p" "1 \<le> p" "p \<le> 2 ^ 322"
    by (simp_all add: p_def)
  have m: "fmul (norm2 q) (norm2 q) = Fin p" using n p(1) by simp
  have ppos: "0 < p" using p(2) by linarith
  have "S / p \<le> S / 1" using p(2) Spos by (intro divide_left_mono) simp_all
  then have "S / p \<le> 2 ^ 161" using S(3) by simp
  moreover have "(2::real) ^ 161 \<le> 2 ^ 1023" by simp
  ultimately have hi: "S / p \<le> 2 ^ 1023" by linarith
  have "1 / 2 ^ 322 \<le> 1 / p" using p(3) ppos by (intro divide_left_mono) simp_all
  also have "1 / p \<le> S / p" using S(2) ppos by (intro divide_right_mono) simp_all
  finally have "1 / 2 ^ 322 \<le> S / p" .
  moreover have "(1::real) / 2 ^ 1022 \<le> 1 / 2 ^ 322" by simp
  ultimately have lo: "1 / 2 ^ 1022 \<le> S / p" by linarith
  define r where "r = round_sig (S / p)"
  have q64: "round64 (S / p) = Fin r" unfolding r_def using lo hi by (rule round64_normal)
  have d: "dot_over q q = Fin S"
    using dot_over_self [of q] assms(2) S(1) by (simp add: count_vector_def sq_sum_def)
  have "fdiv (dot_over q q) (fmul (norm2 q) (norm2 q)) = Inr (Fin r)"
    unfolding d m using ppos q64 by simp
  moreover have "norm2 q \<noteq> Fin 0" using n s(2) by simp
  ultimately have sc: "score q (float_vec q) = Inr (Fin r)"
    using assms(1) by (simp add: score_float_vec del: fmul.simps fdiv.simps)
  have "r = round_sig (S / round_sig (round_sig (sqrt S) * round_sig (sqrt S)))"
    by (simp add: r_def p_def s_def a_def)
  with self_ratio_bound [OF Spos] have "\<bar>r - 1\<bar> \<le> 1 / 2 ^ 50" by simp
  with sc show ?thesis by blast
qed

text \<open>
  C3 (as amended). The query vector and the chunk embedding are vectors of term counts
  (distinct keys, each weight a whole number from 1 to \<open>2\<^sup>5\<^sup>3\<close>), and for every non-empty
  vector \<open>q\<close> of term counts \<open>score(q, q)\<close> returns a float within \<open>2\<^sup>-\<^sup>5\<^sup>0\<close> of 1.0:
  self-similarity is 1.0 up to the rounding of the square root, the product and the
  quotient.
\<close>

theorem self_score_near_one:
  "count_vector (query_vector u s) \<and> count_vector (chunk_embedding u s)
   \<and> (q \<noteq> [] \<and> count_vector q
        \<longrightarrow> (\<exists>r. score q (float_vec q) = Inr (Fin r) \<and> \<bar>r - 1\<bar> \<le> 1 / 2 ^ 50))"
  using self_score_counts [of q]
  by (simp add: query_vector_counts chunk_embedding_counts term_counts_count_vector)

lemma round64_by_sig:
  assumes "round_sig x = r" "1 \<le> x" "x \<le> 4"
  shows "round64 x = Fin r"
proof -
  have "(1::real) / 2 ^ 1022 \<le> 1" "(4::real) \<le> 2 ^ 1023" by simp_all
  with assms(2,3) have "1 / 2 ^ 1022 \<le> x" "x \<le> 2 ^ 1023" by linarith+
  then have "round64 x = Fin (round_sig x)" by (rule round64_normal)
  with assms(1) show ?thesis by simp
qed

lemma three_terms_vector:
  "query_vector ascii_tab (ustr ''a b c'')
   = [(ustr ''a'', Fin 1), (ustr ''b'', Fin 1), (ustr ''c'', Fin 1)]"
proof -
  have low: "py_lower ascii_tab (ustr ''a b c'') = [97, 32, 98, 32, 99]"
    by (simp add: py_lower_def ascii_tab_def ustr_examples)
  have toks: "py_split ascii_tab (py_lower ascii_tab (ustr ''a b c'')) = [[97], [98], [99]]"
    unfolding low by (simp add: py_split_def ascii_tab_def)
  have keep: "py_isalpha ascii_tab [97]" "py_isalpha ascii_tab [98]" "py_isalpha ascii_tab [99]"
    by (simp_all add: py_isalpha_def ascii_tab_def)
  have "query_tokens ascii_tab (ustr ''a b c'') = [[97], [98], [99]]"
    unfolding query_tokens_def toks using keep by simp
  then show ?thesis
    by (simp add: query_vector_def dict_get_def ustr_examples round64_one)
qed

lemma score_three_terms:
  "score [(ustr ''a'', Fin 1), (ustr ''b'', Fin 1), (ustr ''c'', Fin 1)]
     (float_vec [(ustr ''a'', Fin 1), (ustr ''b'', Fin 1), (ustr ''c'', Fin 1)])
   = Inr (Fin (4503599627370497 / 2 ^ 52))"
proof -
  let ?q = "[(ustr ''a'', Fin 1), (ustr ''b'', Fin 1), (ustr ''c'', Fin 1)]"
  have r2: "round64 2 = Fin 2" by (rule round64_numeral) simp
  have r3: "round64 3 = Fin 3" by (rule round64_numeral) simp
  have S: "sq_sum ?q = Fin 3"
    by (simp add: sq_sum_def py_sum_def r2 r3)
  have d: "dot_over ?q ?q = Fin 3"
    by (simp add: dot_over_def dict_get_def py_sum_def r2 r3 ustr_examples)
  have "1 \<le> sqrt 3" by (rule real_le_rsqrt) simp
  moreover have "sqrt 3 \<le> 4" by (rule real_le_lsqrt) simp_all
  ultimately have "round64 (sqrt 3) = Fin (7800463371553962 / 2 ^ 52)"
    using rnd_sqrt3 by (intro round64_by_sig)
  then have n: "norm2 ?q = Fin (7800463371553962 / 2 ^ 52)"
    unfolding norm2_def S by simp
  have "round64 (7800463371553962 / 2 ^ 52 * (7800463371553962 / 2 ^ 52))
        = Fin (6755399441055743 / 2 ^ 51)"
    using rnd_sq by (rule round64_by_sig) simp_all
  then have m: "fmul (norm2 ?q) (norm2 ?q) = Fin (6755399441055743 / 2 ^ 51)"
    unfolding n by (simp only: fmul.simps)
  have "round64 (3 / (6755399441055743 / 2 ^ 51)) = Fin (4503599627370497 / 2 ^ 52)"
    using rnd_quot by (rule round64_by_sig) simp_all
  then have f: "fdiv (dot_over ?q ?q) (fmul (norm2 ?q) (norm2 ?q))
                = Inr (Fin (4503599627370497 / 2 ^ 52))"
    unfolding d m by simp
  have nz: "norm2 ?q \<noteq> Fin 0" unfolding n by simp
  show ?thesis
    unfolding score_float_vec using nz f by simp
qed

theorem self_score_near_one_witness:
  "[(ustr ''a'', Fin 1), (ustr ''b'', Fin 1), (ustr ''c'', Fin 1)] \<noteq> []
   \<and> count_vector [(ustr ''a'', Fin 1), (ustr ''b'', Fin 1), (ustr ''c'', Fin 1)]
   \<and> (\<exists>r. score [(ustr ''a'', Fin 1), (ustr ''b'', Fin 1), (ustr ''c'', Fin 1)]
                  (float_vec [(ustr ''a'', Fin 1), (ustr ''b'', Fin 1), (ustr ''c'', Fin 1)])
              = Inr (Fin r)
            \<and> \<bar>r - 1\<bar> \<le> 1 / 2 ^ 50)"
proof -
  let ?q = "[(ustr ''a'', Fin 1), (ustr ''b'', Fin 1), (ustr ''c'', Fin 1)]"
  have h1: "?q \<noteq> []" by simp
  have "count_vector (query_vector ascii_tab (ustr ''a b c''))"
    using self_score_near_one [of ascii_tab "ustr ''a b c''" ?q] by blast
  then have h2: "count_vector ?q" by (simp only: three_terms_vector)
  from self_score_near_one [of ascii_tab "ustr ''a b c''" ?q] h1 h2 show ?thesis by blast
qed

text \<open>
  C3 as stated fails: the query "a b c" has the vector \<open>{a: 1, b: 1, c: 1}\<close>, whose norm is
  the rounded square root of 3, and the score of the vector against itself is
  \<open>1 + 2\<^sup>-\<^sup>5\<^sup>2\<close> (printed 1.0000000000000002), not 1.0.
\<close>

theorem self_score_not_one_counterexample:
  "query_vector ascii_tab (ustr ''a b c'') \<noteq> []
   \<and> score (query_vector ascii_tab (ustr ''a b c''))
            (float_vec (query_vector ascii_tab (ustr ''a b c'')))
       = Inr (Fin (1 + 1 / 2 ^ 52))
   \<and> score (query_vector ascii_tab (ustr ''a b c''))
            (float_vec (query_vector ascii_tab (ustr ''a b c''))) \<noteq> Inr (Fin 1)"
proof -
  have "(4503599627370497 / 2 ^ 52 :: real) = 1 + 1 / 2 ^ 52" by simp
  then show ?thesis
    unfolding three_terms_vector score_three_terms by simp
qed


section \<open>Properties of search\<close>

lemma scan_positive_matches: "scan q chs = Inr ms \<Longrightarrow> ms = positive_matches q chs"
proof (induction chs arbitrary: ms)
  case Nil
  then show ?case by (simp add: positive_matches_def)
next
  case (Cons ch chs)
  from Cons.prems obtain s where s: "score q (embedding_or_empty ch) = Inr s"
    by (cases "score q (embedding_or_empty ch)") simp_all
  with Cons.prems obtain ms' where ms': "scan q chs = Inr ms'"
    by (cases "scan q chs") simp_all
  from Cons.IH [OF ms'] have "ms' = positive_matches q chs" .
  with Cons.prems s ms' show ?case by (auto simp: positive_matches_def)
qed

lemma ingested_chunk_float_embedding: "float_embedding (chunk_doc u did ttl idx ch)"
  unfolding float_embedding_def chunk_doc_def float_vec_def by auto

lemma score_float_embedding:
  "float_embedding ch \<Longrightarrow> \<exists>s. score q (embedding_or_empty ch) = Inr s"
proof -
  assume "float_embedding ch"
  then consider "embedding ch = None" | d where "embedding ch = Some (float_vec d)"
    by (auto simp: float_embedding_def)
  then show ?thesis
  proof cases
    case 1
    then show ?thesis by (simp add: embedding_or_empty_def score_def)
  next
    case 2
    then show ?thesis using score_float_vec_total [of q d] by (simp add: embedding_or_empty_def)
  qed
qed

lemma scan_total:
  "\<forall>ch \<in> set chs. float_embedding ch \<Longrightarrow> \<exists>ms. scan q chs = Inr ms"
proof (induction chs)
  case Nil
  show ?case by simp
next
  case (Cons ch chs)
  then obtain ms where "scan q chs = Inr ms" by auto
  moreover from Cons.prems obtain s where "score q (embedding_or_empty ch) = Inr s"
    using score_float_embedding [of ch q] by auto
  ultimately show ?case by simp
qed

lemma positive_matches_sound:
  assumes "m \<in> set (positive_matches q chs)"
  shows "\<exists>ch \<in> set chs. score q (embedding_or_empty ch) = Inr (m_score m)
            \<and> positive (m_score m) \<and> m = match_of ch (m_score m)"
proof -
  from assms obtain ch where ch: "ch \<in> set chs"
    and m: "m \<in> set (case score q (embedding_or_empty ch) of
                          Inl e \<Rightarrow> []
                        | Inr s \<Rightarrow> if positive s then [match_of ch s] else [])"
    by (auto simp: positive_matches_def)
  from m obtain s where "score q (embedding_or_empty ch) = Inr s" "positive s" "m = match_of ch s"
    by (cases "score q (embedding_or_empty ch)") (auto split: if_splits)
  then have "score q (embedding_or_empty ch) = Inr (m_score m) \<and> positive (m_score m)
             \<and> m = match_of ch (m_score m)"
    by (simp add: match_of_def)
  with ch show ?thesis by blast
qed

lemma desc_rank_fle:
  "positive x \<Longrightarrow> positive y \<Longrightarrow> desc_rank x \<le> desc_rank y \<Longrightarrow> fle y x"
  by (cases x; cases y) simp_all

lemma desc_rank_inj: "desc_rank x = desc_rank y \<longleftrightarrow> x = y"
  by (cases x; cases y) simp_all

lemma sorted_desc_sort:
  assumes "\<forall>m \<in> set ms. positive (m_score m)"
  shows "sorted_wrt (\<lambda>a b. fle (m_score b) (m_score a))
           (sort_key (\<lambda>m. desc_rank (m_score m)) ms)"
proof -
  let ?r = "sort_key (\<lambda>m. desc_rank (m_score m)) ms"
  have "sorted (map (\<lambda>m. desc_rank (m_score m)) ?r)"
    by (rule sorted_sort_key)
  then have s: "sorted_wrt (\<lambda>a b. desc_rank (m_score a) \<le> desc_rank (m_score b)) ?r"
    by (simp add: sorted_map)
  have p: "\<forall>m \<in> set ?r. positive (m_score m)" using assms by simp
  show ?thesis
  proof (rule sorted_wrt_mono_rel [OF _ s])
    fix a b
    assume "a \<in> set ?r" "b \<in> set ?r" "desc_rank (m_score a) \<le> desc_rank (m_score b)"
    with p show "fle (m_score b) (m_score a)" by (intro desc_rank_fle) auto
  qed
qed

lemma stable_desc_sort:
  "filter (\<lambda>m. m_score m = v) (sort_key (\<lambda>m. desc_rank (m_score m)) ms)
   = filter (\<lambda>m. m_score m = v) ms"
proof -
  have "filter (\<lambda>m. desc_rank (m_score m) = desc_rank v) (sort_key (\<lambda>m. desc_rank (m_score m)) ms)
        = filter (\<lambda>m. desc_rank (m_score m) = desc_rank v) ms"
    by (rule sort_key_stable)
  then show ?thesis by (simp only: desc_rank_inj)
qed

lemma search_result:
  assumes "semantic_search u (Some st) query top_k = Inr (ms, ans)"
  shows "scan (query_vector u query) (take 2000 (chunks st))
           = Inr (positive_matches (query_vector u query) (take 2000 (chunks st)))"
    and "ms = py_prefix (sort_key (\<lambda>m. desc_rank (m_score m))
                 (positive_matches (query_vector u query) (take 2000 (chunks st)))) top_k"
    and "ans = take 800 (join_space (map m_text ms))"
proof -
  let ?q = "query_vector u query" and ?chs = "take 2000 (chunks st)"
  from assms obtain found where f: "scan ?q ?chs = Inr found"
    by (cases "scan ?q ?chs") (simp_all add: semantic_search_def split: if_splits)
  then have eq: "found = positive_matches ?q ?chs" by (rule scan_positive_matches)
  with f show "scan ?q ?chs = Inr (positive_matches ?q ?chs)" by simp
  from assms f eq
  show "ms = py_prefix (sort_key (\<lambda>m. desc_rank (m_score m)) (positive_matches ?q ?chs)) top_k"
    by (auto simp: semantic_search_def Let_def split: if_splits)
  from assms f show "ans = take 800 (join_space (map m_text ms))"
    by (auto simp: semantic_search_def Let_def split: if_splits)
qed

lemma set_py_prefix: "set (py_prefix xs k) \<subseteq> set xs"
  by (auto simp: py_prefix_def dest: in_set_takeD)

lemma sorted_wrt_py_prefix: "sorted_wrt R xs \<Longrightarrow> sorted_wrt R (py_prefix xs k)"
  by (simp add: py_prefix_def sorted_wrt_take)

text \<open>
  C1. Search offers a chunk as a candidate only if its score is strictly greater than
  0.0; the candidates are ranked in descending order of score, equal scores staying in
  retrieval order; the result is the ranking cut to at most \<open>top_k\<close> entries (for
  \<open>top_k \<ge> 0\<close>), and is empty for \<open>top_k = 0\<close>. On a store whose scanned chunks carry
  float embeddings, and a non-empty query, search does return a result.
\<close>

theorem search_filters_sorts_truncates:
  "((\<forall>ch \<in> set (take 2000 (chunks st)). float_embedding ch) \<and> query \<noteq> []
      \<longrightarrow> (\<exists>ms ans. semantic_search u (Some st) query top_k = Inr (ms, ans)))
   \<and> (\<forall>ms ans. semantic_search u (Some st) query top_k = Inr (ms, ans) \<longrightarrow>
        (\<exists>ranked.
           (\<forall>m \<in> set ranked. \<exists>ch \<in> set (take 2000 (chunks st)).
               score (query_vector u query) (embedding_or_empty ch) = Inr (m_score m)
               \<and> positive (m_score m) \<and> m = match_of ch (m_score m))
           \<and> sorted_wrt (\<lambda>a b. fle (m_score b) (m_score a)) ranked
           \<and> (\<forall>v. filter (\<lambda>m. m_score m = v) ranked
                  = filter (\<lambda>m. m_score m = v)
                      (positive_matches (query_vector u query) (take 2000 (chunks st))))
           \<and> ms = py_prefix ranked top_k
           \<and> (0 \<le> top_k \<longrightarrow> ms = take (nat top_k) ranked \<and> int (length ms) \<le> top_k)
           \<and> (top_k = 0 \<longrightarrow> ms = []))
        \<and> (\<forall>m \<in> set ms. positive (m_score m))
        \<and> sorted_wrt (\<lambda>a b. fle (m_score b) (m_score a)) ms)"
proof (intro conjI impI allI)
  assume "(\<forall>ch \<in> set (take 2000 (chunks st)). float_embedding ch) \<and> query \<noteq> []"
  then obtain found where "scan (query_vector u query) (take 2000 (chunks st)) = Inr found"
    and "query \<noteq> []"
    using scan_total [of "take 2000 (chunks st)" "query_vector u query"] by auto
  then show "\<exists>ms ans. semantic_search u (Some st) query top_k = Inr (ms, ans)"
    by (cases query) (simp_all add: semantic_search_def Let_def)
next
  fix ms ans
  assume r: "semantic_search u (Some st) query top_k = Inr (ms, ans)"
  let ?pm = "positive_matches (query_vector u query) (take 2000 (chunks st))"
  let ?ranked = "sort_key (\<lambda>m. desc_rank (m_score m)) ?pm"
  note ms = search_result(2) [OF r]
  have sound: "\<forall>m \<in> set ?ranked. \<exists>ch \<in> set (take 2000 (chunks st)).
               score (query_vector u query) (embedding_or_empty ch) = Inr (m_score m)
               \<and> positive (m_score m) \<and> m = match_of ch (m_score m)"
    using positive_matches_sound by simp
  have pos: "\<forall>m \<in> set ?pm. positive (m_score m)"
    using positive_matches_sound by blast
  have sorted: "sorted_wrt (\<lambda>a b. fle (m_score b) (m_score a)) ?ranked"
    using pos by (rule sorted_desc_sort)
  have stable: "\<forall>v. filter (\<lambda>m. m_score m = v) ?ranked = filter (\<lambda>m. m_score m = v) ?pm"
    by (simp add: stable_desc_sort)
  have trunc: "0 \<le> top_k \<longrightarrow> ms = take (nat top_k) ?ranked \<and> int (length ms) \<le> top_k"
    unfolding ms by (auto simp: py_prefix_def)
  have zero: "top_k = 0 \<longrightarrow> ms = []" unfolding ms by (simp add: py_prefix_def)
  from sound sorted stable ms trunc zero
  show "\<exists>ranked.
           (\<forall>m \<in> set ranked. \<exists>ch \<in> set (take 2000 (chunks st)).
               score (query_vector u query) (embedding_or_empty ch) = Inr (m_score m)
               \<and> positive (m_score m) \<and> m = match_of ch (m_score m))
           \<and> sorted_wrt (\<lambda>a b. fle (m_score b) (m_score a)) ranked
           \<and> (\<forall>v. filter (\<lambda>m. m_score m = v) ranked = filter (\<lambda>m. m_score m = v) ?pm)
           \<and> ms = py_prefix ranked top_k
           \<and> (0 \<le> top_k \<longrightarrow> ms = take (nat top_k) ranked \<and> int (length ms) \<le> top_k)
           \<and> (top_k = 0 \<longrightarrow> ms = [])"
    by blast
  have sub: "set ms \<subseteq> set ?ranked" unfolding ms by (rule set_py_prefix)
  with sound show "\<forall>m \<in> set ms. positive (m_score m)" by blast
  show "sorted_wrt (\<lambda>a b. fle (m_score b) (m_score a)) ms"
    unfolding ms using sorted by (rule sorted_wrt_py_prefix)
qed


section \<open>Search on the example store\<close>

lemma query_a: "query_vector ascii_tab (ustr ''a'') = [(ustr ''a'', Fin 1)]"
proof -
  have low: "py_lower ascii_tab (ustr ''a'') = [97]"
    by (simp add: py_lower_def ascii_tab_def ustr_examples)
  have toks: "py_split ascii_tab (py_lower ascii_tab (ustr ''a'')) = [[97]]"
    unfolding low by (simp add: py_split_def ascii_tab_def)
  have keep: "py_isalpha ascii_tab [97]"
    by (simp add: py_isalpha_def ascii_tab_def)
  have "query_tokens ascii_tab (ustr ''a'') = [[97]]"
    unfolding query_tokens_def toks using keep by simp
  then show ?thesis
    by (simp add: query_vector_def dict_get_def ustr_examples)
qed

lemma round64_two: "round64 2 = Fin 2"
  by (rule round64_numeral) simp

lemma round64_four: "round64 4 = Fin 4"
  by (rule round64_numeral) simp

lemma score_a_b: "score [(ustr ''a'', Fin 1)] (float_vec [(ustr ''b'', Fin 1)]) = Inr (Fin 0)"
  by (simp add: score_float_vec norm2_unit dot_over_def dict_get_def py_sum_def ustr_examples)

lemma score_a_a: "score [(ustr ''a'', Fin 1)] (float_vec [(ustr ''a'', Fin 1)]) = Inr (Fin 1)"
  by (simp add: score_float_vec norm2_unit dot_over_def dict_get_def py_sum_def)

lemma norm2_two: "norm2 [(k, Fin 2)] = Fin 2"
proof -
  have "sqrt 4 = 2" using real_sqrt_abs [of 2] by simp
  then show ?thesis
    by (simp add: norm2_def sq_sum_def py_sum_def round64_four round64_two)
qed

lemma score_a_aa: "score [(ustr ''a'', Fin 1)] (float_vec [(ustr ''a'', Fin 2)]) = Inr (Fin 1)"
  by (simp add: score_float_vec norm2_unit norm2_two dot_over_def dict_get_def py_sum_def
      round64_two)

lemma example_scan:
  "scan [(ustr ''a'', Fin 1)] (chunks example_store)
   = Inr [match_of (example_chunk ''a'' [(ustr ''a'', Fin 1)]) (Fin 1),
          match_of (example_chunk ''a a'' [(ustr ''a'', Fin 2)]) (Fin 1)]"
proof -
  have e: "embedding_or_empty (example_chunk t emb) = float_vec emb" for t emb
    by (simp add: embedding_or_empty_def example_chunk_def)
  show ?thesis
    by (simp add: example_store_def e score_a_b score_a_a score_a_aa)
qed

lemma example_search:
  "semantic_search ascii_tab (Some example_store) (ustr ''a'') k
   = Inr (py_prefix [match_of (example_chunk ''a'' [(ustr ''a'', Fin 1)]) (Fin 1),
                     match_of (example_chunk ''a a'' [(ustr ''a'', Fin 2)]) (Fin 1)] k,
          take 800 (join_space (map m_text
             (py_prefix [match_of (example_chunk ''a'' [(ustr ''a'', Fin 1)]) (Fin 1),
                         match_of (example_chunk ''a a'' [(ustr ''a'', Fin 2)]) (Fin 1)] k))))"
proof -
  have len: "take 2000 (chunks example_store) = chunks example_store"
    by (simp add: example_store_def)
  have s: "scan (query_vector ascii_tab (ustr ''a'')) (take 2000 (chunks example_store))
           = Inr [match_of (example_chunk ''a'' [(ustr ''a'', Fin 1)]) (Fin 1),
                  match_of (example_chunk ''a a'' [(ustr ''a'', Fin 2)]) (Fin 1)]"
    by (simp only: query_a len example_scan)
  have m: "m_score (match_of ch x) = x" for ch x by (simp add: match_of_def)
  have q: "\<not> length (ustr ''a'') < 1" by (simp add: ustr_examples)
  show ?thesis
    unfolding semantic_search_def using q by (simp add: s Let_def m)
qed

lemma example_texts:
  "m_text (match_of (example_chunk ''a'' e) s) = ustr ''a''"
  "m_text (match_of (example_chunk ''a a'' e) s) = ustr ''a a''"
  by (simp_all add: match_of_def example_chunk_def ustr_def)

lemma example_answers:
  "take 800 (join_space [ustr ''a'']) = ustr ''a''"
  "take 800 (join_space [ustr ''a'', ustr ''a a'']) = ustr ''a a a''"
  by (simp_all add: ustr_def)

theorem search_filters_sorts_truncates_witness:
  "list_all float_embedding (take 2000 (chunks example_store)) \<and> ustr ''a'' \<noteq> []
   \<and> semantic_search ascii_tab (Some example_store) (ustr ''a'') 1
       = Inr ([match_of (example_chunk ''a'' [(ustr ''a'', Fin 1)]) (Fin 1)], ustr ''a'')
   \<and> (0 :: int) \<le> 1
   \<and> int (length [match_of (example_chunk ''a'' [(ustr ''a'', Fin 1)]) (Fin 1)]) \<le> 1
   \<and> positive (m_score (match_of (example_chunk ''a'' [(ustr ''a'', Fin 1)]) (Fin 1)))
   \<and> (\<exists>ans. semantic_search ascii_tab (Some example_store) (ustr ''a'') 0 = Inr ([], ans))"
proof -
  let ?A = "match_of (example_chunk ''a'' [(ustr ''a'', Fin 1)]) (Fin 1)"
  note t1 = search_filters_sorts_truncates [of example_store "ustr ''a''" ascii_tab 1]
  note t0 = search_filters_sorts_truncates [of example_store "ustr ''a''" ascii_tab 0]
  have wf: "\<forall>ch \<in> set (take 2000 (chunks example_store)). float_embedding ch"
    by (auto simp: example_store_def example_chunk_def float_embedding_def)
  have ne: "ustr ''a'' \<noteq> []" by (simp add: ustr_examples)
  have r1: "semantic_search ascii_tab (Some example_store) (ustr ''a'') 1
            = Inr ([?A], ustr ''a'')"
    by (simp add: example_search py_prefix_def example_texts example_answers
        del: join_space.simps)
  from t1 r1 have pos: "\<forall>m \<in> set [?A]. positive (m_score m)" by blast
  have k: "(0::int) \<le> 1" by simp
  from t1 r1 obtain ranked where
    "0 \<le> (1::int) \<longrightarrow> [?A] = take (nat 1) ranked \<and> int (length [?A]) \<le> 1"
    by blast
  with k have len: "int (length [?A]) \<le> 1" by blast
  from t0 wf ne obtain ms ans
    where r0: "semantic_search ascii_tab (Some example_store) (ustr ''a'') 0 = Inr (ms, ans)"
    by blast
  with t0 have "ms = []" by blast
  with r0 have z: "\<exists>ans. semantic_search ascii_tab (Some example_store) (ustr ''a'') 0
                        = Inr ([], ans)"
    by blast
  from wf have wf': "list_all float_embedding (take 2000 (chunks example_store))"
    by (simp add: list_all_iff)
  from pos have pos': "positive (m_score ?A)" by simp
  from wf' ne r1 k len pos' z show ?thesis by blast
qed

lemma scan_length: "scan q chs = Inr ms \<Longrightarrow> length ms \<le> length chs"
proof (induction chs arbitrary: ms)
  case Nil
  then show ?case by simp
next
  case (Cons ch chs)
  from Cons.prems obtain s where s: "score q (embedding_or_empty ch) = Inr s"
    by (cases "score q (embedding_or_empty ch)") simp_all
  with Cons.prems obtain ms' where ms': "scan q chs = Inr ms'"
    by (cases "scan q chs") simp_all
  from Cons.IH [OF ms'] have "length ms' \<le> length chs" .
  with Cons.prems s ms' show ?case by (auto split: if_splits)
qed

text \<open>
  C10. A negative \<open>top_k\<close> is accepted: it causes no error of its own, and the result
  is the full ranking of the positive-score matches (what \<open>top_k = 2000\<close>, the scan
  bound, returns) without its last \<open>|top_k|\<close> entries. So the result can be non-empty and
  is not bounded by \<open>top_k\<close>.
\<close>

theorem negative_top_k_drops_from_end:
  assumes "top_k < 0"
  shows "(\<forall>e. semantic_search u db query top_k = Inl e
               \<longleftrightarrow> semantic_search u db query 2000 = Inl e)
     \<and> (\<forall>ranked a. semantic_search u db query 2000 = Inr (ranked, a) \<longrightarrow>
          (\<exists>ans. semantic_search u db query top_k
                   = Inr (take (length ranked - nat (- top_k)) ranked, ans)))"
proof (cases "length query < 1 \<or> db = None")
  case True
  then show ?thesis by (auto simp: semantic_search_def)
next
  case False
  then obtain st where db: "db = Some st" and q: "\<not> length query < 1" by auto
  let ?key = "\<lambda>m. desc_rank (m_score m)"
  show ?thesis
  proof (cases "scan (query_vector u query) (take 2000 (chunks st))")
    case (Inl e)
    then show ?thesis using db q by (simp add: semantic_search_def)
  next
    case (Inr found)
    then have "length found \<le> length (take 2000 (chunks st))" by (rule scan_length)
    then have "length (sort_key ?key found) \<le> 2000" by simp
    then have full: "py_prefix (sort_key ?key found) 2000 = sort_key ?key found"
      by (simp add: py_prefix_def)
    have neg: "py_prefix (sort_key ?key found) top_k
               = take (length found - nat (- top_k)) (sort_key ?key found)"
      using assms by (simp add: py_prefix_def)
    show ?thesis
      using db q Inr by (simp add: semantic_search_def Let_def full neg)
  qed
qed

theorem negative_top_k_drops_from_end_witness:
  "(- 1 :: int) < 0
   \<and> semantic_search ascii_tab (Some example_store) (ustr ''a'') 2000
       = Inr ([match_of (example_chunk ''a'' [(ustr ''a'', Fin 1)]) (Fin 1),
               match_of (example_chunk ''a a'' [(ustr ''a'', Fin 2)]) (Fin 1)], ustr ''a a a'')
   \<and> (\<exists>ans. semantic_search ascii_tab (Some example_store) (ustr ''a'') (- 1)
       = Inr ([match_of (example_chunk ''a'' [(ustr ''a'', Fin 1)]) (Fin 1)], ans))
   \<and> - 1 < int (length [match_of (example_chunk ''a'' [(ustr ''a'', Fin 1)]) (Fin 1)])"
proof -
  let ?A = "match_of (example_chunk ''a'' [(ustr ''a'', Fin 1)]) (Fin 1)"
  let ?C = "match_of (example_chunk ''a a'' [(ustr ''a'', Fin 2)]) (Fin 1)"
  have n: "(- 1 :: int) < 0" by simp
  note t = negative_top_k_drops_from_end [OF n, of ascii_tab "Some example_store" "ustr ''a''"]
  have r: "semantic_search ascii_tab (Some example_store) (ustr ''a'') 2000
           = Inr ([?A, ?C], ustr ''a a a'')"
    by (simp add: example_search py_prefix_def example_texts example_answers
        del: join_space.simps)
  with t have "\<exists>ans. semantic_search ascii_tab (Some example_store) (ustr ''a'') (- 1)
                 = Inr (take (length [?A, ?C] - nat (- (- 1))) [?A, ?C], ans)"
    by blast
  then have "\<exists>ans. semantic_search ascii_tab (Some example_store) (ustr ''a'') (- 1)
                 = Inr ([?A], ans)"
    by simp
  with n r show ?thesis by simp
qed


section \<open>Chunks without a usable embedding\<close>

lemma scan_skip_zero:
  assumes "score q (embedding_or_empty ch) = Inr (Fin 0)"
  shows "scan q (pre @ ch # post) = scan q (pre @ post)"
proof (induction pre)
  case Nil
  show ?case using assms by (cases "scan q post") simp_all
next
  case (Cons p pre)
  show ?case by (simp only: append_Cons scan.simps Cons.IH)
qed

lemma score_falsy: "\<not> truthy e \<Longrightarrow> score q e = Inr (Fin 0)"
  by (simp add: score_def)

lemma score_not_dict:
  assumes "q \<noteq> []" "truthy e" "\<forall>d. e \<noteq> PDict d"
  shows "score q e = Inl AttributeError"
  using assms by (cases e) (simp_all add: score_def)

text \<open>
  C8 (as amended). A stored chunk whose embedding is missing, or present but empty or
  null, is treated as having the empty map: it scores 0.0, raises nothing and adds no
  match, wherever it stands among the scanned chunks; the same holds for every chunk
  when the query vector is empty. A non-empty embedding that is not a dictionary makes
  the scan raise \<open>AttributeError\<close> instead.
\<close>

theorem absent_or_falsy_embedding_scores_zero:
  "(embedding ch = None \<or> (\<exists>e. embedding ch = Some e \<and> \<not> truthy e) \<or> q = []
      \<longrightarrow> score q (embedding_or_empty ch) = Inr (Fin 0)
          \<and> score q (embedding_or_empty ch) = score q (PDict [])
          \<and> scan q (pre @ ch # post) = scan q (pre @ post))
   \<and> (\<forall>e. embedding ch = Some e \<and> truthy e \<and> (\<forall>d. e \<noteq> PDict d) \<and> q \<noteq> []
      \<longrightarrow> score q (embedding_or_empty ch) = Inl AttributeError
          \<and> scan q (ch # post) = Inl AttributeError)"
proof (intro conjI impI allI)
  assume h: "embedding ch = None \<or> (\<exists>e. embedding ch = Some e \<and> \<not> truthy e) \<or> q = []"
  have e: "score q (PDict []) = Inr (Fin 0)" by (simp add: score_def)
  from h show z: "score q (embedding_or_empty ch) = Inr (Fin 0)"
  proof (elim disjE exE conjE)
    assume "embedding ch = None"
    then show ?thesis by (simp add: embedding_or_empty_def e)
  next
    fix v assume "embedding ch = Some v" "\<not> truthy v"
    then show ?thesis by (simp add: embedding_or_empty_def score_falsy)
  next
    assume "q = []"
    then show ?thesis by (simp add: score_def)
  qed
  from z e show "score q (embedding_or_empty ch) = score q (PDict [])" by simp
  from z show "scan q (pre @ ch # post) = scan q (pre @ post)" by (rule scan_skip_zero)
next
  fix e
  assume h: "embedding ch = Some e \<and> truthy e \<and> (\<forall>d. e \<noteq> PDict d) \<and> q \<noteq> []"
  then have "score q e = Inl AttributeError" by (simp add: score_not_dict)
  with h show a: "score q (embedding_or_empty ch) = Inl AttributeError"
    by (simp add: embedding_or_empty_def)
  then show "scan q (ch # post) = Inl AttributeError" by simp
qed

theorem absent_or_falsy_embedding_scores_zero_witness:
  "embedding \<lparr>doc_id = Some (ustr ''d1''), text_of = Some (ustr ''a''), page = None,
               embedding = None, metadata = None\<rparr> = None
   \<and> score [(ustr ''a'', Fin 1)]
        (embedding_or_empty \<lparr>doc_id = Some (ustr ''d1''), text_of = Some (ustr ''a''),
               page = None, embedding = None, metadata = None\<rparr>) = Inr (Fin 0)
   \<and> scan [(ustr ''a'', Fin 1)]
        ([] @ \<lparr>doc_id = Some (ustr ''d1''), text_of = Some (ustr ''a''), page = None,
               embedding = None, metadata = None\<rparr> # []) = Inr []
   \<and> embedding \<lparr>doc_id = Some (ustr ''d1''), text_of = Some (ustr ''a''), page = None,
               embedding = Some (PStr (ustr ''a'')), metadata = None\<rparr>
       = Some (PStr (ustr ''a''))
   \<and> truthy (PStr (ustr ''a'')) \<and> [(ustr ''a'', Fin 1)] \<noteq> []
   \<and> scan [(ustr ''a'', Fin 1)]
        [\<lparr>doc_id = Some (ustr ''d1''), text_of = Some (ustr ''a''), page = None,
          embedding = Some (PStr (ustr ''a'')), metadata = None\<rparr>] = Inl AttributeError"
proof -
  let ?c = "\<lparr>doc_id = Some (ustr ''d1''), text_of = Some (ustr ''a''), page = None,
              embedding = None, metadata = None\<rparr>"
  let ?b = "\<lparr>doc_id = Some (ustr ''d1''), text_of = Some (ustr ''a''), page = None,
              embedding = Some (PStr (ustr ''a'')), metadata = None\<rparr>"
  let ?q = "[(ustr ''a'', Fin 1)]"
  note t = absent_or_falsy_embedding_scores_zero [of ?c ?q "[]" "[]"]
  note v = absent_or_falsy_embedding_scores_zero [of ?b ?q "[]" "[]"]
  have n: "embedding ?c = None" by simp
  with t have s: "score ?q (embedding_or_empty ?c) = Inr (Fin 0)"
    and "scan ?q ([] @ ?c # []) = scan ?q ([] @ [])" by blast+
  then have sc: "scan ?q ([] @ ?c # []) = Inr []" by simp
  have b: "embedding ?b = Some (PStr (ustr ''a''))" "truthy (PStr (ustr ''a''))" "?q \<noteq> []"
    "\<forall>d. PStr (ustr ''a'') \<noteq> PDict d" by (simp_all add: ustr_examples)
  with v have bad: "scan ?q [?b] = Inl AttributeError" by blast
  from n s sc b(1-3) bad show ?thesis by blast
qed

text \<open>
  C8 as stated fails: with the query "a", one stored chunk whose embedding is the string
  "a" makes search raise \<open>AttributeError\<close>, and one whose embedding maps "a" to a string
  makes it raise \<open>TypeError\<close>.
\<close>

theorem malformed_embedding_raises_counterexample:
  "semantic_search ascii_tab
     (Some \<lparr>documents = [],
            chunks = [\<lparr>doc_id = Some (ustr ''d1''), text_of = Some (ustr ''a''), page = None,
                       embedding = Some (PStr (ustr ''a'')), metadata = None\<rparr>]\<rparr>)
     (ustr ''a'') 5
   = Inl AttributeError
   \<and> semantic_search ascii_tab
     (Some \<lparr>documents = [],
            chunks = [\<lparr>doc_id = Some (ustr ''d1''), text_of = Some (ustr ''a''), page = None,
                       embedding = Some (PDict [(ustr ''a'', PStr (ustr ''x''))]),
                       metadata = None\<rparr>]\<rparr>)
     (ustr ''a'') 5
   = Inl TypeError"
proof -
  have q: "\<not> length (ustr ''a'') < 1" by (simp add: ustr_examples)
  have s1: "score [(ustr ''a'', Fin 1)] (PStr (ustr ''a'')) = Inl AttributeError"
    by (simp add: score_def ustr_examples)
  have s2: "score [(ustr ''a'', Fin 1)] (PDict [(ustr ''a'', PStr (ustr ''x''))]) = Inl TypeError"
    by (simp add: score_def dict_get_def)
  show ?thesis
    unfolding semantic_search_def query_a using q
    by (simp add: embedding_or_empty_def s1 s2)
qed


section \<open>Properties of deletion\<close>

lemma delete_one_none: "\<forall>x \<in> set xs. \<not> f x \<Longrightarrow> delete_one f xs = (xs, 0)"
  by (induction xs) simp_all

lemma delete_one_some:
  "\<exists>x \<in> set xs. f x \<Longrightarrow> snd (delete_one f xs) = 1 \<and> Suc (length (fst (delete_one f xs))) = length xs"
proof (induction xs)
  case Nil
  then show ?case by simp
next
  case (Cons x xs)
  show ?case
  proof (cases "f x")
    case True
    then show ?thesis by simp
  next
    case False
    with Cons.prems have "\<exists>x \<in> set xs. f x" by simp
    from Cons.IH [OF this] False show ?thesis by (simp add: split_beta)
  qed
qed

lemma delete_one_count:
  "snd (delete_one f xs) = 0 \<longleftrightarrow> fst (delete_one f xs) = xs"
proof (cases "\<exists>x \<in> set xs. f x")
  case True
  from delete_one_some [OF this] show ?thesis
    by (metis One_nat_def n_not_Suc_n zero_neq_one)
next
  case False
  then show ?thesis by (simp add: delete_one_none)
qed

lemma delete_one_length:
  "length xs - length (fst (delete_one f xs)) = snd (delete_one f xs)"
proof (cases "\<exists>x \<in> set xs. f x")
  case True
  from delete_one_some [OF this] show ?thesis by linarith
next
  case False
  then show ?thesis by (simp add: delete_one_none)
qed

lemma delete_one_last:
  "\<forall>x \<in> set xs. \<not> f x \<Longrightarrow> f y \<Longrightarrow> delete_one f (xs @ [y]) = (xs, 1)"
  by (induction xs) simp_all

text \<open>
  C9. With the store available, deleting by \<open>did\<close> removes at most one document, by the
  native identifier when \<open>did\<close> converts to one and by the raw string otherwise; the
  operation fails with not-found (404) exactly when the number of documents removed is
  zero, and in every case, not-found included, all chunks whose \<open>doc_id\<close> equals \<open>did\<close> are
  removed.
\<close>

theorem delete_not_found_iff_none_deleted:
  "\<exists>st' docs n.
     (docs, n) = (case oid_of_str b did of
                    Some oid \<Rightarrow> delete_one (\<lambda>d. id_of d = IdObj oid) (documents st)
                  | None \<Rightarrow> delete_one (\<lambda>d. id_of d = IdStr did) (documents st))
     \<and> documents st' = docs
     \<and> n = length (documents st) - length (documents st')
     \<and> chunks st' = filter (\<lambda>ch. doc_id ch \<noteq> Some did) (chunks st)
     \<and> delete_document b (Some st) did
         = (Some st', if n = 0 then Inl (HTTPException 404) else Inr True)
     \<and> (n = 0 \<longleftrightarrow> documents st' = documents st)"
proof -
  define res where "res = (case oid_of_str b did of
                    Some oid \<Rightarrow> delete_one (\<lambda>d. id_of d = IdObj oid) (documents st)
                  | None \<Rightarrow> delete_one (\<lambda>d. id_of d = IdStr did) (documents st))"
  define st' where "st' = st\<lparr>documents := fst res,
                               chunks := delete_many (\<lambda>ch. doc_id ch = Some did) (chunks st)\<rparr>"
  have len: "snd res = length (documents st) - length (fst res)"
    unfolding res_def by (cases "oid_of_str b did") (simp_all add: delete_one_length)
  have unch: "snd res = 0 \<longleftrightarrow> fst res = documents st"
    unfolding res_def by (cases "oid_of_str b did") (simp_all add: delete_one_count)
  have d: "delete_document b (Some st) did
           = (Some st', if snd res = 0 then Inl (HTTPException 404) else Inr True)"
    by (simp add: delete_document_def res_def [symmetric] st'_def split_beta Let_def)
  have "(fst res, snd res) = res" by simp
  moreover have "documents st' = fst res" by (simp add: st'_def)
  moreover have "chunks st' = filter (\<lambda>ch. doc_id ch \<noteq> Some did) (chunks st)"
    by (simp add: st'_def delete_many_def)
  ultimately show ?thesis
    using len unch d unfolding res_def by metis
qed

lemma ustr_x: "ustr ''x'' = [120]"
  by (simp add: ustr_def)

theorem delete_not_found_iff_none_deleted_witness:
  "delete_document canonical_bson
     (Some \<lparr>documents = [],
            chunks = [\<lparr>doc_id = Some (ustr ''x''), text_of = Some (ustr ''a''), page = None,
                       embedding = None, metadata = None\<rparr>]\<rparr>) (ustr ''x'')
   = (Some \<lparr>documents = [], chunks = []\<rparr>, Inl (HTTPException 404))
   \<and> \<lparr>documents = [], chunks = []\<rparr>
       \<noteq> \<lparr>documents = [],
            chunks = [\<lparr>doc_id = Some (ustr ''x''), text_of = Some (ustr ''a''), page = None,
                       embedding = None, metadata = None\<rparr>]\<rparr>"
proof -
  let ?st = "\<lparr>documents = [],
            chunks = [\<lparr>doc_id = Some (ustr ''x''), text_of = Some (ustr ''a''), page = None,
                       embedding = None, metadata = None\<rparr>]\<rparr>"
  from delete_not_found_iff_none_deleted
         [where b = canonical_bson and did = "ustr ''x''" and st = ?st]
  obtain st' :: store and docs :: "document list" and n where
    a: "(docs, n) = (case oid_of_str canonical_bson (ustr ''x'') of
                    Some oid \<Rightarrow> delete_one (\<lambda>d. id_of d = IdObj oid) (documents ?st)
                  | None \<Rightarrow> delete_one (\<lambda>d. id_of d = IdStr (ustr ''x'')) (documents ?st))"
    and b: "documents st' = docs"
    and c: "chunks st' = filter (\<lambda>ch. doc_id ch \<noteq> Some (ustr ''x'')) (chunks ?st)"
    and d: "delete_document canonical_bson (Some ?st) (ustr ''x'')
         = (Some st', if n = 0 then Inl (HTTPException 404) else Inr True)"
    by blast
  have "oid_of_str canonical_bson (ustr ''x'') = None"
    by (simp add: oid_of_str_def ustr_x)
  with a have "docs = []" "n = 0" by simp_all
  with b c have "st' = \<lparr>documents = [], chunks = []\<rparr>" by simp
  with d \<open>n = 0\<close> show ?thesis by simp
qed


section \<open>Ingesting and deleting a document\<close>

lemma ingest_file_result:
  "ingest_file u st oid f =
     (\<lparr>documents = documents st @
          [\<lparr>title = filename f, pages = None, table_count = Some 0,
            size_of = content_size f, id_of = IdObj oid\<rparr>],
       chunks = chunks st @
          map (\<lambda>(idx, ch). chunk_doc u (str_of_oid oid) (filename f) idx ch)
              (enumerate 0 (chunks_of (decoded f)))\<rparr>,
      str_of_oid oid)"
  by (simp add: ingest_file_def create_document_def Let_def)

lemma new_chunks_doc_id:
  "ch \<in> set (map (\<lambda>(idx, c). chunk_doc u did ttl idx c) xs) \<Longrightarrow> doc_id ch = Some did"
  by (auto simp: chunk_doc_def)

lemma search_doc_ids:
  assumes "semantic_search u (Some st) query k = Inr (ms, ans)" "m \<in> set ms"
  shows "\<exists>ch \<in> set (chunks st). m_doc_id m = doc_id ch"
proof -
  let ?pm = "positive_matches (query_vector u query) (take 2000 (chunks st))"
  from search_result(2) [OF assms(1)] assms(2) have "m \<in> set ?pm"
    using set_py_prefix [of "sort_key (\<lambda>m. desc_rank (m_score m)) ?pm" k] by auto
  from positive_matches_sound [OF this] obtain ch where
    ch: "ch \<in> set (take 2000 (chunks st))" and m: "m = match_of ch (m_score m)" by blast
  from ch have "ch \<in> set (chunks st)" by (rule in_set_takeD)
  moreover have "m_doc_id (match_of ch (m_score m)) = doc_id ch" by (simp add: match_of_def)
  with m have "m_doc_id m = doc_id ch" by simp
  ultimately show ?thesis by blast
qed

lemma oid_roundtrip:
  assumes "valid_oid oid"
  shows "oid_of_str b (str_of_oid oid) = Some oid"
proof (cases oid)
  case (ObjectId h)
  with assms have len: "length h = 24"
    and low: "\<forall>c \<in> set h. (48 \<le> c \<and> c \<le> 57) \<or> (97 \<le> c \<and> c \<le> 102)"
    by (simp_all add: valid_oid_def list_all_iff)
  from low have hex: "list_all is_hex h"
    unfolding list_all_iff is_hex_def by blast
  have "hex_lower h = h"
    unfolding hex_lower_def
  proof (rule map_idI)
    fix c assume "c \<in> set h"
    with low have "(48 \<le> c \<and> c \<le> 57) \<or> (97 \<le> c \<and> c \<le> 102)" by blast
    then show "(if 65 \<le> c \<and> c \<le> 70 then c + 32 else c) = c" by auto
  qed
  with len hex have "oid_of_str b h = Some (ObjectId h)"
    by (simp add: oid_of_str_def)
  with ObjectId show ?thesis by simp
qed

text \<open>
  C5. Ingesting a file and then deleting the document by the identifier it was given
  (the string under which the chunks were stored, which is also how the listing shows the
  document) succeeds, removes the document and every chunk whose \<open>doc_id\<close> is that
  identifier, and no later search returns a match with that \<open>doc_id\<close>. The store assigns
  a well-formed identifier that no stored document has yet.
\<close>

theorem ingest_then_delete_roundtrip:
  assumes "valid_oid oid" "\<forall>d \<in> set (documents st). id_of d \<noteq> IdObj oid"
  shows "\<exists>st1 did st2.
     ingest_file u st oid f = (st1, did)
     \<and> did = str_of_oid oid
     \<and> (\<exists>d \<in> set (documents st1). id_of d = IdObj oid \<and> encode_id (id_of d) = did)
     \<and> (\<exists>ch \<in> set (chunks st1). doc_id ch = Some did)
     \<and> delete_document b (Some st1) did = (Some st2, Inr True)
     \<and> documents st2 = documents st
     \<and> (\<forall>d \<in> set (documents st2). id_of d \<noteq> IdObj oid)
     \<and> chunks st2 = filter (\<lambda>ch. doc_id ch \<noteq> Some did) (chunks st)
     \<and> (\<forall>ch \<in> set (chunks st2). doc_id ch \<noteq> Some did)
     \<and> (\<forall>query k ms ans. semantic_search u (Some st2) query k = Inr (ms, ans)
           \<longrightarrow> (\<forall>m \<in> set ms. m_doc_id m \<noteq> Some did))"
proof -
  define did where "did = str_of_oid oid"
  define newdoc where "newdoc = \<lparr>title = filename f, pages = None, table_count = Some 0,
            size_of = content_size f, id_of = IdObj oid\<rparr>"
  define new where "new = map (\<lambda>(idx, ch). chunk_doc u did (filename f) idx ch)
              (enumerate 0 (chunks_of (decoded f)))"
  define st1 where "st1 = \<lparr>documents = documents st @ [newdoc], chunks = chunks st @ new\<rparr>"
  define st2 where "st2 = \<lparr>documents = documents st,
                            chunks = filter (\<lambda>ch. doc_id ch \<noteq> Some did) (chunks st)\<rparr>"
  have ing: "ingest_file u st oid f = (st1, did)"
    by (simp add: ingest_file_result st1_def did_def newdoc_def new_def)
  have conv: "oid_of_str b did = Some oid"
    unfolding did_def using assms(1) by (rule oid_roundtrip)
  have "id_of newdoc = IdObj oid" by (simp add: newdoc_def)
  with assms(2) have del1: "delete_one (\<lambda>d. id_of d = IdObj oid) (documents st @ [newdoc])
                            = (documents st, 1)"
    by (intro delete_one_last) simp_all
  have newid: "\<forall>ch \<in> set new. doc_id ch = Some did"
    unfolding new_def using new_chunks_doc_id by blast
  then have "filter (\<lambda>ch. doc_id ch \<noteq> Some did) new = []"
    by (simp add: filter_empty_conv)
  then have delm: "delete_many (\<lambda>ch. doc_id ch = Some did) (chunks st @ new)
                   = filter (\<lambda>ch. doc_id ch \<noteq> Some did) (chunks st)"
    by (simp add: delete_many_def)
  have del: "delete_document b (Some st1) did = (Some st2, Inr True)"
    by (simp add: delete_document_def conv st1_def del1 delm st2_def)
  have doc1: "\<exists>d \<in> set (documents st1). id_of d = IdObj oid \<and> encode_id (id_of d) = did"
    by (simp add: st1_def newdoc_def encode_id_def did_def)
  have "chunks_of (decoded f) \<noteq> []"
    using length_chunks_of [of "decoded f"] by auto
  then have "length new \<noteq> 0" by (simp add: new_def)
  then have "new \<noteq> []" by simp
  then obtain c where "c \<in> set new" by (cases new) auto
  with newid have ch1: "\<exists>ch \<in> set (chunks st1). doc_id ch = Some did"
    by (auto simp: st1_def)
  have docs2: "documents st2 = documents st" by (simp add: st2_def)
  have fresh2: "\<forall>d \<in> set (documents st2). id_of d \<noteq> IdObj oid"
    using assms(2) by (simp add: st2_def)
  have chs2: "chunks st2 = filter (\<lambda>ch. doc_id ch \<noteq> Some did) (chunks st)"
    by (simp add: st2_def)
  then have none2: "\<forall>ch \<in> set (chunks st2). doc_id ch \<noteq> Some did" by simp
  have srch: "\<forall>query k ms ans. semantic_search u (Some st2) query k = Inr (ms, ans)
           \<longrightarrow> (\<forall>m \<in> set ms. m_doc_id m \<noteq> Some did)"
  proof (intro allI impI ballI)
    fix query k ms ans m
    assume "semantic_search u (Some st2) query k = Inr (ms, ans)" "m \<in> set ms"
    then obtain ch where "ch \<in> set (chunks st2)" "m_doc_id m = doc_id ch"
      using search_doc_ids by blast
    with none2 show "m_doc_id m \<noteq> Some did" by simp
  qed
  have d: "did = str_of_oid oid" by (rule did_def)
  from ing d doc1 ch1 del docs2 fresh2 chs2 none2 srch show ?thesis by blast
qed

lemma example_oid: "valid_oid (ObjectId (ustr ''0123456789abcdef01234567''))"
  by (simp add: valid_oid_def ustr_def)

theorem ingest_then_delete_roundtrip_witness:
  "valid_oid (ObjectId (ustr ''0123456789abcdef01234567''))
   \<and> list_all (\<lambda>d. id_of d \<noteq> IdObj (ObjectId (ustr ''0123456789abcdef01234567'')))
        (documents \<lparr>documents = [], chunks = []\<rparr>)
   \<and> (\<exists>st1. ingest_file ascii_tab \<lparr>documents = [], chunks = []\<rparr>
               (ObjectId (ustr ''0123456789abcdef01234567''))
               \<lparr>filename = ustr ''f'', content_size = 1, decoded = ustr ''a''\<rparr>
             = (st1, ustr ''0123456789abcdef01234567'')
          \<and> delete_document canonical_bson (Some st1) (ustr ''0123456789abcdef01234567'')
             = (Some \<lparr>documents = [], chunks = []\<rparr>, Inr True))"
proof -
  let ?h = "ustr ''0123456789abcdef01234567''"
  let ?oid = "ObjectId ?h"
  let ?st = "\<lparr>documents = [], chunks = []\<rparr> :: store"
  let ?f = "\<lparr>filename = ustr ''f'', content_size = 1, decoded = ustr ''a''\<rparr>"
  note v = example_oid
  have fr: "\<forall>d \<in> set (documents ?st). id_of d \<noteq> IdObj ?oid" by simp
  from ingest_then_delete_roundtrip
         [OF v fr, where u = ascii_tab and f = ?f and b = canonical_bson]
  obtain st1 did and st2 :: store where
    a: "ingest_file ascii_tab ?st ?oid ?f = (st1, did)"
    and b: "did = str_of_oid ?oid"
    and c: "delete_document canonical_bson (Some st1) did = (Some st2, Inr True)"
    and d: "documents st2 = documents ?st"
    and e: "chunks st2 = filter (\<lambda>ch. doc_id ch \<noteq> Some did) (chunks ?st)"
    by blast
  from d e have "st2 = ?st" by simp
  with a b c have "ingest_file ascii_tab ?st ?oid ?f = (st1, ?h)
          \<and> delete_document canonical_bson (Some st1) ?h = (Some ?st, Inr True)"
    by simp
  moreover have "list_all (\<lambda>d. id_of d \<noteq> IdObj ?oid) (documents ?st)" by simp
  ultimately show ?thesis using v by blast
qed

end
